theory Spec2Isabelle
  imports Main "HOL-Library.List_Lexorder"
begin

section \<open>Text model\<close>

text \<open>
  Python strings are sequences of Unicode code points, and the fancy glyphs lie outside
  the 8-bit range, so a character is its code point and a string a list of code points.
  Offsets, lengths and columns count code points, as \<open>len\<close> and indexing do in the source.
\<close>

type_synonym uchar = nat
type_synonym ustring = "nat list"

definition ustr :: "string \<Rightarrow> ustring" where
  "ustr s = map of_char s"

abbreviation NEWLINE :: uchar where "NEWLINE \<equiv> 10"
abbreviation BACKTICK :: uchar where "BACKTICK \<equiv> 96"

text \<open>audit_fancy_quotes.py, lines 11-15.\<close>

abbreviation STRAIGHT_DOUBLE :: uchar where "STRAIGHT_DOUBLE \<equiv> 34"
abbreviation STRAIGHT_APOSTROPHE :: uchar where "STRAIGHT_APOSTROPHE \<equiv> 39"
abbreviation FANCY_OPEN_DOUBLE :: uchar where "FANCY_OPEN_DOUBLE \<equiv> 8220"
abbreviation FANCY_CLOSE_DOUBLE :: uchar where "FANCY_CLOSE_DOUBLE \<equiv> 8221"
abbreviation FANCY_APOSTROPHE :: uchar where "FANCY_APOSTROPHE \<equiv> 8217"

text \<open>
  The characters that \<open>str.strip()\<close> removes and that \<open>\s\<close> matches in a \<open>str\<close> pattern:
  both go through CPython's \<open>Py_UNICODE_ISSPACE\<close>.
\<close>

definition is_space :: "uchar \<Rightarrow> bool" where
  "is_space c \<longleftrightarrow>
     (9 \<le> c \<and> c \<le> 13) \<or> (28 \<le> c \<and> c \<le> 32) \<or> c = 133 \<or> c = 160 \<or> c = 5760 \<or>
     (8192 \<le> c \<and> c \<le> 8202) \<or> c = 8232 \<or> c = 8233 \<or> c = 8239 \<or> c = 8287 \<or> c = 12288"

text \<open>
  \<open>s.split("\n")\<close>: never empty, one more piece than there are newlines. A character
  that is no newline joins the first piece of the rest; the rest always has a first piece,
  so the \<open>[]\<close> case below is never taken.
\<close>

fun split_nl :: "ustring \<Rightarrow> ustring list" where
  "split_nl [] = [[]]"
| "split_nl (c # cs) =
     (if c = NEWLINE then [] # split_nl cs
      else (case split_nl cs of
              [] \<Rightarrow> [[c]]
            | line # ls \<Rightarrow> (c # line) # ls))"

text \<open>\<open>"\n".join(out)\<close>.\<close>

fun join_nl :: "ustring list \<Rightarrow> ustring" where
  "join_nl [] = []"
| "join_nl [l] = l"
| "join_nl (l # ls) = l @ NEWLINE # join_nl ls"

text \<open>\<open>s.strip()\<close> and \<open>s.startswith(p)\<close>.\<close>

definition py_strip :: "ustring \<Rightarrow> ustring" where
  "py_strip s = rev (dropWhile is_space (rev (dropWhile is_space s)))"

definition startswith :: "ustring \<Rightarrow> ustring \<Rightarrow> bool" where
  "startswith s p \<longleftrightarrow> take (length p) s = p"

section \<open>Fence tracking\<close>

text \<open>
  \<open>re.match(r"^\s*```", line)\<close>: the greedy \<open>\s*\<close> cannot give a character back to the
  backticks (a backtick is no whitespace), so the line matches exactly when three
  backticks follow its leading whitespace.
\<close>

definition opens_fence :: "ustring \<Rightarrow> bool" where
  "opens_fence line \<longleftrightarrow>
     take 3 (dropWhile is_space line) = [BACKTICK, BACKTICK, BACKTICK]"

text \<open>\<open>re.match(r"^\s*(`+)", line).group(1)\<close>: the whole backtick run.\<close>

definition fence_marker :: "ustring \<Rightarrow> ustring" where
  "fence_marker line = takeWhile (\<lambda>c. c = BACKTICK) (dropWhile is_space line)"

text \<open>\<open>line.strip().startswith(fence) and len(line.strip()) >= len(fence)\<close>.\<close>

definition closes_fence :: "ustring \<Rightarrow> ustring \<Rightarrow> bool" where
  "closes_fence fence line \<longleftrightarrow>
     startswith (py_strip line) fence \<and> length (py_strip line) \<ge> length fence"

section \<open>Inline code spans\<close>

text \<open>
  The inner \<open>while j <= len(...)\<close> loop shared by \<open>iter_prose_offsets\<close> (lines 52-67) and
  \<open>prose_offset_set\<close> (lines 136-151). The argument is the text from index \<open>j\<close> on; the
  result is the text from the index the outer loop resumes at: behind a closing run of at
  least \<open>run\<close> backticks, or the empty rest when the end is reached first (the
  \<open>j == len(...)\<close> branch). The loop always leaves through a \<open>break\<close>, so the \<open>else\<close>
  clause of the \<open>while\<close> is never run.
\<close>

function skip_span :: "nat \<Rightarrow> ustring \<Rightarrow> ustring" where
  "skip_span run [] = []"
| "skip_span run (c # cs) =
     (if c = BACKTICK then
        (if length (takeWhile (\<lambda>c. c = BACKTICK) (c # cs)) \<ge> run
         then dropWhile (\<lambda>c. c = BACKTICK) cs
         else skip_span run (dropWhile (\<lambda>c. c = BACKTICK) cs))
      else skip_span run cs)"
  by pat_completeness auto
termination
proof (relation "measure (\<lambda>(run, s). length s)")
  show "wf (measure (\<lambda>(run, s). length s))" by simp
next
  fix run :: nat and c :: uchar and cs :: ustring
  show "((run, dropWhile (\<lambda>c. c = BACKTICK) cs), run, c # cs) \<in> measure (\<lambda>(run, s). length s)"
    using length_dropWhile_le [of "\<lambda>c. c = BACKTICK" cs] by simp
next
  fix run :: nat and c :: uchar and cs :: ustring
  show "((run, cs), run, c # cs) \<in> measure (\<lambda>(run, s). length s)" by simp
qed

text \<open>
  What the outer loop does at a backtick: count the opening run, then skip the span.
  The result is the text from the new index \<open>i\<close> on.
\<close>

definition after_span :: "ustring \<Rightarrow> ustring" where
  "after_span s =
     skip_span (length (takeWhile (\<lambda>c. c = BACKTICK) s)) (dropWhile (\<lambda>c. c = BACKTICK) s)"

lemma length_skip_span: "length (skip_span run s) \<le> length s"
proof (induction run s rule: skip_span.induct)
  case (1 run)
  then show ?case by simp
next
  case (2 run c cs)
  have "length (dropWhile (\<lambda>c. c = BACKTICK) cs) \<le> length cs"
    by (rule length_dropWhile_le)
  with 2 show ?case by (auto simp: le_Suc_eq)
qed

lemma length_after_span: "length (after_span (BACKTICK # cs)) \<le> length cs"
proof -
  have "length (skip_span n (dropWhile (\<lambda>c. c = BACKTICK) cs)) \<le> length cs" for n
    using length_skip_span [of n "dropWhile (\<lambda>c. c = BACKTICK) cs"]
      length_dropWhile_le [of "\<lambda>c. c = BACKTICK" cs] by linarith
  then show ?thesis by (simp add: after_span_def)
qed

text \<open>
  \<open>iter_prose_offsets\<close> (lines 40-72): the pairs \<open>(i, prose[i])\<close> in the order they are
  yielded. The second argument is \<open>prose[i:]\<close>.
\<close>

function iter_from :: "nat \<Rightarrow> ustring \<Rightarrow> (nat \<times> uchar) list" where
  "iter_from i [] = []"
| "iter_from i (c # cs) =
     (if c = BACKTICK
      then iter_from (i + (length (c # cs) - length (after_span (c # cs)))) (after_span (c # cs))
      else (i, c) # iter_from (i + 1) cs)"
  by pat_completeness auto
termination
proof (relation "measure (\<lambda>(i, s). length s)")
  show "wf (measure (\<lambda>(i, s). length s))" by simp
next
  fix i :: nat and c :: uchar and cs :: ustring
  assume "c = BACKTICK"
  then show "((i + (length (c # cs) - length (after_span (c # cs))), after_span (c # cs)), i, c # cs)
      \<in> measure (\<lambda>(i, s). length s)"
    using length_after_span [of cs] by simp
next
  fix i :: nat and c :: uchar and cs :: ustring
  show "((i + 1, cs), i, c # cs) \<in> measure (\<lambda>(i, s). length s)" by simp
qed

definition iter_prose_offsets :: "ustring \<Rightarrow> (nat \<times> uchar) list" where
  "iter_prose_offsets prose = iter_from 0 prose"

text \<open>
  The inline scan of one prose line in \<open>prose_offset_set\<close> (lines 127-156): the indices
  \<open>i\<close> for which \<open>pos + i\<close> is added. The second argument is \<open>line[i:]\<close>.
\<close>

function line_prose_from :: "nat \<Rightarrow> ustring \<Rightarrow> nat list" where
  "line_prose_from i [] = []"
| "line_prose_from i (c # cs) =
     (if c = BACKTICK
      then line_prose_from (i + (length (c # cs) - length (after_span (c # cs)))) (after_span (c # cs))
      else i # line_prose_from (i + 1) cs)"
  by pat_completeness auto
termination
proof (relation "measure (\<lambda>(i, s). length s)")
  show "wf (measure (\<lambda>(i, s). length s))" by simp
next
  fix i :: nat and c :: uchar and cs :: ustring
  assume "c = BACKTICK"
  then show "((i + (length (c # cs) - length (after_span (c # cs))), after_span (c # cs)), i, c # cs)
      \<in> measure (\<lambda>(i, s). length s)"
    using length_after_span [of cs] by simp
next
  fix i :: nat and c :: uchar and cs :: ustring
  show "((i + 1, cs), i, c # cs) \<in> measure (\<lambda>(i, s). length s)" by simp
qed

section \<open>The prose offsets of a document\<close>

text \<open>
  The loop over the lines in \<open>prose_offset_set\<close> (lines 119-161). The state is \<open>None\<close>
  outside a fence and \<open>Some fence\<close> inside one: the source's \<open>fence\<close> variable is read only
  while \<open>in_fence\<close> holds and is assigned at every opening. The offsets are collected in
  increasing order; \<open>prose_offset_set\<close> is their set.
\<close>

fun prose_lines :: "ustring option \<Rightarrow> nat \<Rightarrow> ustring list \<Rightarrow> nat list" where
  "prose_lines st pos [] = []"
| "prose_lines None pos (line # ls) =
     (if opens_fence line
      then prose_lines (Some (fence_marker line)) (pos + length line + 1) ls
      else map (\<lambda>i. pos + i) (line_prose_from 0 line)
           @ prose_lines None (pos + length line + 1) ls)"
| "prose_lines (Some fence) pos (line # ls) =
     prose_lines (if closes_fence fence line then None else Some fence)
       (pos + length line + 1) ls"

definition prose_offset_list :: "ustring \<Rightarrow> nat list" where
  "prose_offset_list content = prose_lines None 0 (split_nl content)"

definition prose_offset_set :: "ustring \<Rightarrow> nat set" where
  "prose_offset_set content = set (prose_offset_list content)"

section \<open>The quote rewriter\<close>

text \<open>
  \<open>s.find(c)\<close> as an index or \<open>-1\<close>, and \<open>s.rfind(c)\<close> through the reversed string. The
  source calls them as \<open>content.rfind("\n", 0, i)\<close>, which searches \<open>content[0:i]\<close>, and
  \<open>content.find("\n", i)\<close>, which searches from \<open>i\<close> on and reports an index of \<open>content\<close>.
\<close>

fun py_find :: "uchar \<Rightarrow> ustring \<Rightarrow> int" where
  "py_find c [] = - 1"
| "py_find c (x # xs) =
     (if x = c then 0 else (let r = py_find c xs in if r < 0 then - 1 else r + 1))"

definition py_rfind :: "uchar \<Rightarrow> ustring \<Rightarrow> int" where
  "py_rfind c s =
     (let r = py_find c (rev s) in if r < 0 then - 1 else int (length s) - 1 - r)"

definition find_from :: "uchar \<Rightarrow> ustring \<Rightarrow> nat \<Rightarrow> int" where
  "find_from c s i =
     (let r = py_find c (drop i s) in if r < 0 then - 1 else int i + r)"

text \<open>\<open>s[a:b]\<close> for bounds that are not negative (the only ones the source computes).\<close>

definition slice :: "ustring \<Rightarrow> int \<Rightarrow> int \<Rightarrow> ustring" where
  "slice s a b = take (nat b - nat a) (drop (nat a) s)"

text \<open>\<open>sub in s\<close>.\<close>

fun contains :: "ustring \<Rightarrow> ustring \<Rightarrow> bool" where
  "contains [] sub \<longleftrightarrow> sub = []"
| "contains (c # cs) sub \<longleftrightarrow> startswith (c # cs) sub \<or> contains cs sub"

text \<open>
  \<open>re.match(r"^[\s\-]*\*?Avoid\*?:", line)\<close>. No item of the pattern can take a character
  its successor could use (\<open>*\<close> is not in the class, \<open>A\<close> and \<open>:\<close> are not \<open>*\<close>), so
  backtracking never finds a match that the greedy pass misses: the class takes every
  leading whitespace and dash, each \<open>\*?\<close> takes a star when one is there.
\<close>

definition avoid_regex :: "ustring \<Rightarrow> bool" where
  "avoid_regex line =
     (let r1 = dropWhile (\<lambda>c. is_space c \<or> c = 45) line;
          r2 = (if take 1 r1 = [42] then drop 1 r1 else r1);
          r3 = drop 5 r2;
          r4 = (if take 1 r3 = [42] then drop 1 r3 else r3)
      in startswith r2 (ustr ''Avoid'') \<and> take 1 r4 = [58])"

text \<open>The line around offset \<open>i\<close> and the test of lines 183-188 (and 198-203).\<close>

definition line_around :: "ustring \<Rightarrow> nat \<Rightarrow> ustring" where
  "line_around content i =
     (let line_start = py_rfind NEWLINE (take i content) + 1;
          e = find_from NEWLINE content i;
          line_end = (if e = - 1 then int (length content) else e)
      in slice content line_start line_end)"

definition is_avoid_line :: "ustring \<Rightarrow> bool" where
  "is_avoid_line line \<longleftrightarrow> avoid_regex line \<or> contains (take 20 line) (ustr ''- Avoid:'')"

text \<open>
  The loop of \<open>fix_prose_quotes\<close> (lines 174-211). The last argument is \<open>content[i:]\<close>, so
  its head is \<open>content[i]\<close>; the result is what the loop appends to \<open>result\<close> from \<open>i\<close> on.
\<close>

fun fix_loop :: "ustring \<Rightarrow> nat set \<Rightarrow> bool \<Rightarrow> nat \<Rightarrow> nat \<Rightarrow> ustring \<Rightarrow> ustring" where
  "fix_loop content prose skip i double_quote_count [] = []"
| "fix_loop content prose skip i double_quote_count (c # cs) =
     (if i \<notin> prose then c # fix_loop content prose skip (i + 1) double_quote_count cs
      else if c = STRAIGHT_DOUBLE then
        (if skip \<and> is_avoid_line (line_around content i)
         then c # fix_loop content prose skip (i + 1) double_quote_count cs
         else (if (double_quote_count + 1) mod 2 = 0 then FANCY_CLOSE_DOUBLE else FANCY_OPEN_DOUBLE)
              # fix_loop content prose skip (i + 1) (double_quote_count + 1) cs)
      else if c = STRAIGHT_APOSTROPHE then
        (if skip \<and> is_avoid_line (line_around content i)
         then c # fix_loop content prose skip (i + 1) double_quote_count cs
         else FANCY_APOSTROPHE # fix_loop content prose skip (i + 1) double_quote_count cs)
      else c # fix_loop content prose skip (i + 1) double_quote_count cs)"

definition fix_prose_quotes :: "ustring \<Rightarrow> bool \<Rightarrow> ustring" where
  "fix_prose_quotes content skip_avoid_examples =
     fix_loop content (prose_offset_set content) skip_avoid_examples 0 0 content"

section \<open>The quote scanner\<close>

text \<open>\<open>get_prose_content\<close> (lines 18-37).\<close>

fun prose_view_lines :: "ustring option \<Rightarrow> ustring list \<Rightarrow> ustring list" where
  "prose_view_lines st [] = []"
| "prose_view_lines None (line # ls) =
     (if opens_fence line then [] # prose_view_lines (Some (fence_marker line)) ls
      else line # prose_view_lines None ls)"
| "prose_view_lines (Some fence_char) (line # ls) =
     [] # prose_view_lines (if closes_fence fence_char line then None else Some fence_char) ls"

definition get_prose_content :: "ustring \<Rightarrow> ustring" where
  "get_prose_content content = join_nl (prose_view_lines None (split_nl content))"

text \<open>\<open>find_straight_quotes_in_prose\<close> (lines 75-77).\<close>

definition find_straight_quotes_in_prose :: "ustring \<Rightarrow> (nat \<times> uchar) list" where
  "find_straight_quotes_in_prose prose =
     filter (\<lambda>(i, c). c = STRAIGHT_DOUBLE \<or> c = STRAIGHT_APOSTROPHE) (iter_prose_offsets prose)"

text \<open>\<open>find_fancy_in_code\<close> (lines 80-102).\<close>

definition is_fancy :: "uchar \<Rightarrow> bool" where
  "is_fancy c \<longleftrightarrow> c = FANCY_OPEN_DOUBLE \<or> c = FANCY_CLOSE_DOUBLE \<or> c = FANCY_APOSTROPHE"

fun fancy_lines :: "ustring option \<Rightarrow> nat \<Rightarrow> ustring list \<Rightarrow> (nat \<times> uchar) list" where
  "fancy_lines st pos [] = []"
| "fancy_lines None pos (line # ls) =
     fancy_lines (if opens_fence line then Some (fence_marker line) else None)
       (pos + length line + 1) ls"
| "fancy_lines (Some fence) pos (line # ls) =
     (if closes_fence fence line then fancy_lines None (pos + length line + 1) ls
      else map (\<lambda>(j, c). (pos + j, c))
             (filter (\<lambda>(j, c). is_fancy c) (zip [0..<length line] line))
           @ fancy_lines (Some fence) (pos + length line + 1) ls)"

definition find_fancy_in_code :: "ustring \<Rightarrow> (nat \<times> uchar) list" where
  "find_fancy_in_code content = fancy_lines None 0 (split_nl content)"

text \<open>\<open>line_and_column\<close> (lines 105-109), for the offsets the scans produce (none negative).\<close>

definition line_and_column :: "ustring \<Rightarrow> nat \<Rightarrow> int \<times> int" where
  "line_and_column content offset =
     (let before' = take offset content;
          line = int (count_list before' NEWLINE) + 1;
          col = (if NEWLINE \<in> set before' then int offset - py_rfind NEWLINE before'
                 else int offset + 1)
      in (line, col))"

text \<open>
  \<open>audit_file\<close> (lines 215-232). The argument is what \<open>read_text\<close> gives: \<open>None\<close> when it
  raises, and then the result is the error entry.
\<close>

record report =
  straight_in_prose :: "((int \<times> int) \<times> uchar) list"
  fancy_in_code :: "((int \<times> int) \<times> uchar) list"
  ok :: bool

definition audit_content :: "ustring \<Rightarrow> report" where
  "audit_content content =
     (let prose = get_prose_content content;
          straight = find_straight_quotes_in_prose prose;
          fancy = find_fancy_in_code content;
          straight_with_loc = map (\<lambda>(off, char). (line_and_column prose off, char)) straight;
          fancy_with_loc = map (\<lambda>(off, c). (line_and_column content off, c)) fancy
      in \<lparr> straight_in_prose = straight_with_loc, fancy_in_code = fancy_with_loc,
           ok = (straight_with_loc = [] \<and> fancy_with_loc = []) \<rparr>)"

definition audit_file :: "ustring option \<Rightarrow> report option" where
  "audit_file read_result = map_option audit_content read_result"

section \<open>Properties of the rewriting loop\<close>

text \<open>
  Whether the loop replaces the character \<open>c\<close> at offset \<open>j\<close>: a straight quote at a prose
  offset, outside an exempted line when the exemption is on.
\<close>

definition is_rewritten :: "ustring \<Rightarrow> nat set \<Rightarrow> bool \<Rightarrow> nat \<Rightarrow> uchar \<Rightarrow> bool" where
  "is_rewritten content P skip j c \<longleftrightarrow>
     j \<in> P \<and> (c = STRAIGHT_DOUBLE \<or> c = STRAIGHT_APOSTROPHE) \<and>
     \<not> (skip \<and> is_avoid_line (line_around content j))"

definition glyph_for :: "nat \<Rightarrow> uchar" where
  "glyph_for n = (if even n then FANCY_CLOSE_DOUBLE else FANCY_OPEN_DOUBLE)"

lemma fix_loop_Cons:
  "fix_loop content P skip i cnt (c # cs) =
     (if is_rewritten content P skip i c
      then (if c = STRAIGHT_DOUBLE
            then (if even (Suc cnt) then FANCY_CLOSE_DOUBLE else FANCY_OPEN_DOUBLE)
                 # fix_loop content P skip (Suc i) (Suc cnt) cs
            else FANCY_APOSTROPHE # fix_loop content P skip (Suc i) cnt cs)
      else c # fix_loop content P skip (Suc i) cnt cs)"
  unfolding is_rewritten_def by (cases skip) (simp_all add: even_iff_mod_2_eq_zero)

lemma length_fix_loop: "length (fix_loop content P skip i cnt s) = length s"
  by (induction s arbitrary: i cnt) (simp_all add: fix_loop_Cons del: fix_loop.simps(2))

lemma fix_loop_nth:
  "k < length s \<Longrightarrow>
   (if is_rewritten content P skip (i + k) (s ! k)
    then (if s ! k = STRAIGHT_DOUBLE
          then fix_loop content P skip i cnt s ! k \<in> {FANCY_OPEN_DOUBLE, FANCY_CLOSE_DOUBLE}
          else fix_loop content P skip i cnt s ! k = FANCY_APOSTROPHE)
    else fix_loop content P skip i cnt s ! k = s ! k)"
proof (induction s arbitrary: i cnt k)
  case Nil
  then show ?case by simp
next
  case (Cons c cs)
  show ?case
  proof (cases k)
    case 0
    then show ?thesis by (simp add: fix_loop_Cons del: fix_loop.simps(2))
  next
    case (Suc m)
    with Cons.prems have m: "m < length cs" by simp
    have ih: "if is_rewritten content P skip (Suc i + m) (cs ! m)
      then (if cs ! m = STRAIGHT_DOUBLE
          then fix_loop content P skip (Suc i) cnt' cs ! m \<in> {FANCY_OPEN_DOUBLE, FANCY_CLOSE_DOUBLE}
          else fix_loop content P skip (Suc i) cnt' cs ! m = FANCY_APOSTROPHE)
      else fix_loop content P skip (Suc i) cnt' cs ! m = cs ! m" for cnt'
      by (rule Cons.IH [OF m])
    show ?thesis
      using ih [of cnt] ih [of "Suc cnt"] Suc
      by (auto simp add: fix_loop_Cons simp del: fix_loop.simps(2) split: if_splits)
  qed
qed

lemma fix_prose_quotes_nth:
  assumes "i < length content"
  shows "if is_rewritten content (prose_offset_set content) skip i (content ! i)
    then (if content ! i = STRAIGHT_DOUBLE
          then fix_prose_quotes content skip ! i \<in> {FANCY_OPEN_DOUBLE, FANCY_CLOSE_DOUBLE}
          else fix_prose_quotes content skip ! i = FANCY_APOSTROPHE)
    else fix_prose_quotes content skip ! i = content ! i"
  using fix_loop_nth [OF assms, of content "prose_offset_set content" skip 0 0]
  unfolding fix_prose_quotes_def by (simp only: add_0)

lemma length_fix_prose_quotes: "length (fix_prose_quotes content skip) = length content"
  by (simp add: fix_prose_quotes_def length_fix_loop)

lemma fix_loop_doubles:
  "\<exists>N. map snd (filter (\<lambda>(a, b). a = STRAIGHT_DOUBLE \<and> b \<noteq> STRAIGHT_DOUBLE)
                  (zip s (fix_loop content P skip i cnt s)))
      = map glyph_for [Suc cnt ..< Suc cnt + N]"
proof (induction s arbitrary: i cnt)
  case Nil
  have "map glyph_for [Suc cnt ..< Suc cnt + 0] = []" by simp
  then show ?case by (metis (no_types) filter.simps(1) fix_loop.simps(1) list.simps(8) zip_Nil)
next
  case (Cons c cs)
  show ?case
  proof (cases "is_rewritten content P skip i c \<and> c = STRAIGHT_DOUBLE")
    case True
    obtain N where N: "map snd (filter (\<lambda>(a, b). a = STRAIGHT_DOUBLE \<and> b \<noteq> STRAIGHT_DOUBLE)
                  (zip cs (fix_loop content P skip (Suc i) (Suc cnt) cs)))
      = map glyph_for [Suc (Suc cnt) ..< Suc (Suc cnt) + N]"
      using Cons.IH by blast
    have "[Suc cnt ..< Suc cnt + Suc N] = Suc cnt # [Suc (Suc cnt) ..< Suc (Suc cnt) + N]"
      by (simp add: upt_conv_Cons)
    moreover from True have "is_rewritten content P skip i STRAIGHT_DOUBLE" "c = STRAIGHT_DOUBLE"
      by auto
    ultimately have "map snd (filter (\<lambda>(a, b). a = STRAIGHT_DOUBLE \<and> b \<noteq> STRAIGHT_DOUBLE)
                  (zip (c # cs) (fix_loop content P skip i cnt (c # cs))))
      = map glyph_for [Suc cnt ..< Suc cnt + Suc N]"
      using N by (simp add: fix_loop_Cons glyph_for_def del: fix_loop.simps(2) upt_Suc)
    then show ?thesis by blast
  next
    case False
    obtain N where N: "map snd (filter (\<lambda>(a, b). a = STRAIGHT_DOUBLE \<and> b \<noteq> STRAIGHT_DOUBLE)
                  (zip cs (fix_loop content P skip (Suc i) cnt cs)))
      = map glyph_for [Suc cnt ..< Suc cnt + N]"
      using Cons.IH by blast
    from False N have "map snd (filter (\<lambda>(a, b). a = STRAIGHT_DOUBLE \<and> b \<noteq> STRAIGHT_DOUBLE)
                  (zip (c # cs) (fix_loop content P skip i cnt (c # cs))))
      = map glyph_for [Suc cnt ..< Suc cnt + N]"
      by (auto simp add: fix_loop_Cons simp del: fix_loop.simps(2) upt_Suc)
    then show ?thesis by blast
  qed
qed

lemma filter_index_zip:
  assumes "length xs = length ys"
  shows "map (\<lambda>i. ys ! i) (filter (\<lambda>i. Q (xs ! i) (ys ! i)) [0..<length xs])
         = map snd (filter (\<lambda>(a, b). Q a b) (zip xs ys))"
proof -
  have z: "zip xs ys = map (\<lambda>i. (xs ! i, ys ! i)) [0..<length xs]"
    using assms by (intro nth_equalityI) simp_all
  show ?thesis
    by (subst z) (simp add: filter_map comp_def)
qed

lemma replaced_doubles_alternate:
  fixes content :: ustring and skip :: bool
  defines "out \<equiv> fix_prose_quotes content skip"
  defines "R \<equiv> filter (\<lambda>i. content ! i = STRAIGHT_DOUBLE \<and> out ! i \<noteq> STRAIGHT_DOUBLE)
                   [0..<length content]"
  assumes n: "n < length R"
  shows "out ! (R ! n) = glyph_for (Suc n)"
proof -
  have len: "length content = length out"
    by (simp add: out_def fix_prose_quotes_def length_fix_loop)
  obtain N where N: "map snd (filter (\<lambda>(a, b). a = STRAIGHT_DOUBLE \<and> b \<noteq> STRAIGHT_DOUBLE)
                  (zip content out)) = map glyph_for [Suc 0 ..< Suc 0 + N]"
    unfolding out_def fix_prose_quotes_def using fix_loop_doubles by blast
  have m: "map (\<lambda>i. out ! i) R = map glyph_for [Suc 0 ..< Suc 0 + N]"
    unfolding R_def
    using filter_index_zip [OF len, of "\<lambda>a b. a = STRAIGHT_DOUBLE \<and> b \<noteq> STRAIGHT_DOUBLE"] N
    by simp
  then have "length R = N"
    by (metis add_diff_cancel_left' length_map length_upt)
  with n have "map glyph_for [Suc 0 ..< Suc 0 + N] ! n = glyph_for (Suc n)"
    by (simp del: upt_Suc)
  moreover have "map (\<lambda>i. out ! i) R ! n = out ! (R ! n)"
    using n by simp
  ultimately show ?thesis using m by simp
qed

section \<open>Alternation of the rewriter\<close>

text \<open>Evaluation rules for closed inputs.\<close>

lemmas scan_eval =
  ustr_def prose_offset_set_def prose_offset_list_def opens_fence_def fence_marker_def
  closes_fence_def py_strip_def startswith_def is_space_def after_span_def

lemmas fix_eval =
  fix_prose_quotes_def scan_eval is_avoid_line_def avoid_regex_def line_around_def
  py_rfind_def find_from_def slice_def Let_def

text \<open>
  C2. Among the straight double quotes that \<open>fix_prose_quotes\<close> replaces, taken in document
  order, the \<open>n\<close>-th (counted from 1) becomes the open glyph when \<open>n\<close> is odd and the close
  glyph when \<open>n\<close> is even; every straight apostrophe it replaces becomes the fancy
  apostrophe.
\<close>

theorem fix_prose_quotes_alternation:
  "(\<forall>n < length (filter (\<lambda>i. content ! i = STRAIGHT_DOUBLE \<and>
                               fix_prose_quotes content skip ! i \<noteq> STRAIGHT_DOUBLE)
                        [0..<length content]).
      fix_prose_quotes content skip !
        (filter (\<lambda>i. content ! i = STRAIGHT_DOUBLE \<and>
                      fix_prose_quotes content skip ! i \<noteq> STRAIGHT_DOUBLE)
                [0..<length content] ! n)
      = (if odd (n + 1) then FANCY_OPEN_DOUBLE else FANCY_CLOSE_DOUBLE)) \<and>
   (\<forall>i < length content.
      content ! i = STRAIGHT_APOSTROPHE \<and> fix_prose_quotes content skip ! i \<noteq> STRAIGHT_APOSTROPHE
      \<longrightarrow> fix_prose_quotes content skip ! i = FANCY_APOSTROPHE)"
proof (intro conjI allI impI)
  fix n
  assume "n < length (filter (\<lambda>i. content ! i = STRAIGHT_DOUBLE \<and>
                               fix_prose_quotes content skip ! i \<noteq> STRAIGHT_DOUBLE)
                        [0..<length content])"
  from replaced_doubles_alternate [OF this]
  show "fix_prose_quotes content skip !
        (filter (\<lambda>i. content ! i = STRAIGHT_DOUBLE \<and>
                      fix_prose_quotes content skip ! i \<noteq> STRAIGHT_DOUBLE)
                [0..<length content] ! n)
      = (if odd (n + 1) then FANCY_OPEN_DOUBLE else FANCY_CLOSE_DOUBLE)"
    by (simp add: glyph_for_def)
next
  fix i
  assume i: "i < length content"
    and a: "content ! i = STRAIGHT_APOSTROPHE \<and>
            fix_prose_quotes content skip ! i \<noteq> STRAIGHT_APOSTROPHE"
  from fix_prose_quotes_nth [OF i, of skip] a
  show "fix_prose_quotes content skip ! i = FANCY_APOSTROPHE"
    by (auto split: if_splits)
qed

lemma six_quotes_eval:
  "fix_prose_quotes (ustr ''\"a\" \"b\" \"c\" it's'') False
   = [FANCY_OPEN_DOUBLE, 97, FANCY_CLOSE_DOUBLE, 32, FANCY_OPEN_DOUBLE, 98,
      FANCY_CLOSE_DOUBLE, 32, FANCY_OPEN_DOUBLE, 99, FANCY_CLOSE_DOUBLE, 32,
      105, 116, FANCY_APOSTROPHE, 115]"
  by (simp add: fix_eval)

theorem fix_prose_quotes_alternation_witness:
  "filter (\<lambda>i. ustr ''\"a\" \"b\" \"c\" it's'' ! i = STRAIGHT_DOUBLE \<and>
                fix_prose_quotes (ustr ''\"a\" \"b\" \"c\" it's'') False ! i \<noteq> STRAIGHT_DOUBLE)
          [0..<length (ustr ''\"a\" \"b\" \"c\" it's'')] = [0, 2, 4, 6, 8, 10] \<and>
   map (\<lambda>i. fix_prose_quotes (ustr ''\"a\" \"b\" \"c\" it's'') False ! i) [0, 2, 4, 6, 8, 10]
     = [FANCY_OPEN_DOUBLE, FANCY_CLOSE_DOUBLE, FANCY_OPEN_DOUBLE, FANCY_CLOSE_DOUBLE,
        FANCY_OPEN_DOUBLE, FANCY_CLOSE_DOUBLE] \<and>
   ustr ''\"a\" \"b\" \"c\" it's'' ! 14 = STRAIGHT_APOSTROPHE \<and>
   fix_prose_quotes (ustr ''\"a\" \"b\" \"c\" it's'') False ! 14 = FANCY_APOSTROPHE"
proof -
  let ?c = "ustr ''\"a\" \"b\" \"c\" it's''"
  let ?out = "fix_prose_quotes ?c False"
  let ?R = "filter (\<lambda>i. ?c ! i = STRAIGHT_DOUBLE \<and> ?out ! i \<noteq> STRAIGHT_DOUBLE) [0..<length ?c]"
  have R: "?R = [0, 2, 4, 6, 8, 10]"
    unfolding six_quotes_eval by (simp add: ustr_def)
  note t = fix_prose_quotes_alternation [of ?c False]
  have d: "?out ! (?R ! n) = (if odd (n + 1) then FANCY_OPEN_DOUBLE else FANCY_CLOSE_DOUBLE)"
    if "n < 6" for n
    using t [THEN conjunct1, rule_format, of n] that unfolding R by simp
  have "?out ! 0 = FANCY_OPEN_DOUBLE" using d [of 0] unfolding R by simp
  moreover have "?out ! 2 = FANCY_CLOSE_DOUBLE" using d [of 1] unfolding R by simp
  moreover have "?out ! 4 = FANCY_OPEN_DOUBLE" using d [of 2] unfolding R by simp
  moreover have "?out ! 6 = FANCY_CLOSE_DOUBLE" using d [of 3] unfolding R by simp
  moreover have "?out ! 8 = FANCY_OPEN_DOUBLE" using d [of 4] unfolding R by simp
  moreover have "?out ! 10 = FANCY_CLOSE_DOUBLE" using d [of 5] unfolding R by simp
  moreover have "?c ! 14 = STRAIGHT_APOSTROPHE" by (simp add: ustr_def)
  moreover have "?out ! 14 \<noteq> STRAIGHT_APOSTROPHE" unfolding six_quotes_eval by simp
  ultimately show ?thesis
    using R t [THEN conjunct2, rule_format, of 14] by (simp add: ustr_def)
qed

section \<open>The prose offsets do not depend on the quotes\<close>

text \<open>
  How a character of the input relates to the character the rewriter puts at the same
  offset: either the same, or a straight quote turned into a fancy glyph.
\<close>

definition glyph_rel :: "uchar \<Rightarrow> uchar \<Rightarrow> bool" where
  "glyph_rel a b \<longleftrightarrow>
     a = b \<or> ((a = STRAIGHT_DOUBLE \<or> a = STRAIGHT_APOSTROPHE) \<and>
              (b = FANCY_OPEN_DOUBLE \<or> b = FANCY_CLOSE_DOUBLE \<or> b = FANCY_APOSTROPHE))"

definition plain :: "uchar \<Rightarrow> bool" where
  "plain k \<longleftrightarrow> k \<noteq> STRAIGHT_DOUBLE \<and> k \<noteq> STRAIGHT_APOSTROPHE \<and> k \<noteq> FANCY_OPEN_DOUBLE \<and>
              k \<noteq> FANCY_CLOSE_DOUBLE \<and> k \<noteq> FANCY_APOSTROPHE"

lemma glyph_rel_refl: "glyph_rel a a"
  by (simp add: glyph_rel_def)

lemma quotes_no_space:
  "\<not> is_space STRAIGHT_DOUBLE" "\<not> is_space STRAIGHT_APOSTROPHE" "\<not> is_space FANCY_OPEN_DOUBLE"
  "\<not> is_space FANCY_CLOSE_DOUBLE" "\<not> is_space FANCY_APOSTROPHE"
  by (simp_all add: is_space_def)

lemma glyph_rel_space: "glyph_rel a b \<Longrightarrow> is_space a = is_space b"
  unfolding glyph_rel_def using quotes_no_space by blast

lemma glyph_rel_plain: "glyph_rel a b \<Longrightarrow> plain k \<Longrightarrow> (a = k) = (b = k)"
  by (auto simp: glyph_rel_def plain_def)

lemma glyph_rel_backtick: "glyph_rel a b \<Longrightarrow> (a = BACKTICK) = (b = BACKTICK)"
  by (rule glyph_rel_plain) (simp_all add: plain_def)

lemma glyph_rel_newline: "glyph_rel a b \<Longrightarrow> (a = NEWLINE) = (b = NEWLINE)"
  by (rule glyph_rel_plain) (simp_all add: plain_def)

lemma rel_dropWhile:
  assumes "list_all2 glyph_rel xs ys" and "\<And>a b. glyph_rel a b \<Longrightarrow> p a = p b"
  shows "list_all2 glyph_rel (dropWhile p xs) (dropWhile p ys)"
  using assms(1)
proof (induction rule: list_all2_induct)
  case Nil
  then show ?case by simp
next
  case (Cons x xs y ys)
  then show ?case using assms(2) [of x y] by simp
qed

lemma rel_eq_plain:
  assumes "list_all2 glyph_rel xs ys" and "\<forall>k \<in> set p. plain k"
  shows "(xs = p) = (ys = p)"
  using assms
proof (induction arbitrary: p rule: list_all2_induct)
  case Nil
  then show ?case by simp
next
  case step: (Cons x xs y ys)
  show ?case
  proof (cases p)
    case Nil
    then show ?thesis by simp
  next
    case (Cons k ks)
    with step.prems have k: "plain k" and ks: "\<forall>k \<in> set ks. plain k" by simp_all
    have "(x = k) = (y = k)" by (rule glyph_rel_plain [OF step.hyps(1) k])
    moreover have "(xs = ks) = (ys = ks)" by (rule step.IH [OF ks])
    ultimately show ?thesis unfolding Cons by simp
  qed
qed

lemma rel_backtick_run:
  assumes "list_all2 glyph_rel xs ys"
  shows "takeWhile (\<lambda>c. c = BACKTICK) xs = takeWhile (\<lambda>c. c = BACKTICK) ys"
  using assms
proof (induction rule: list_all2_induct)
  case Nil
  then show ?case by simp
next
  case (Cons x xs y ys)
  then show ?case using glyph_rel_backtick [of x y] by auto
qed

lemma rel_startswith:
  assumes "list_all2 glyph_rel xs ys" and "\<forall>k \<in> set p. plain k"
  shows "startswith xs p = startswith ys p"
  unfolding startswith_def
  by (rule rel_eq_plain [OF list_all2_takeI [OF assms(1)] assms(2)])

lemma rel_py_strip:
  assumes "list_all2 glyph_rel xs ys"
  shows "list_all2 glyph_rel (py_strip xs) (py_strip ys)"
proof -
  have "list_all2 glyph_rel (dropWhile is_space xs) (dropWhile is_space ys)"
    by (rule rel_dropWhile [OF assms glyph_rel_space])
  then have "list_all2 glyph_rel (rev (dropWhile is_space xs)) (rev (dropWhile is_space ys))"
    by (simp only: list_all2_rev)
  then have "list_all2 glyph_rel (dropWhile is_space (rev (dropWhile is_space xs)))
      (dropWhile is_space (rev (dropWhile is_space ys)))"
    by (rule rel_dropWhile [OF _ glyph_rel_space])
  then show ?thesis
    unfolding py_strip_def by (simp only: list_all2_rev)
qed

lemma backticks_plain: "\<forall>k \<in> set [BACKTICK, BACKTICK, BACKTICK]. plain k"
  by (simp add: plain_def)

lemma rel_opens_fence:
  assumes "list_all2 glyph_rel xs ys"
  shows "opens_fence xs = opens_fence ys"
  unfolding opens_fence_def
  by (rule rel_eq_plain [OF list_all2_takeI [OF rel_dropWhile [OF assms glyph_rel_space]]
        backticks_plain])

lemma rel_fence_marker:
  assumes "list_all2 glyph_rel xs ys"
  shows "fence_marker xs = fence_marker ys"
  unfolding fence_marker_def
  by (rule rel_backtick_run [OF rel_dropWhile [OF assms glyph_rel_space]])

lemma fence_marker_plain: "\<forall>k \<in> set (fence_marker line). plain k"
  by (auto simp: fence_marker_def plain_def dest: set_takeWhileD)

lemma rel_closes_fence:
  assumes "list_all2 glyph_rel xs ys" and "\<forall>k \<in> set fence. plain k"
  shows "closes_fence fence xs = closes_fence fence ys"
  unfolding closes_fence_def
  using rel_startswith [OF rel_py_strip [OF assms(1)] assms(2)]
    list_all2_lengthD [OF rel_py_strip [OF assms(1)]]
  by simp

lemma split_nl_not_Nil: "split_nl s \<noteq> []"
  by (induction s) (auto split: list.splits)

lemma rel_split_nl:
  assumes "list_all2 glyph_rel xs ys"
  shows "list_all2 (list_all2 glyph_rel) (split_nl xs) (split_nl ys)"
  using assms
proof (induction rule: list_all2_induct)
  case Nil
  then show ?case by simp
next
  case (Cons x xs y ys)
  obtain l ls where l: "split_nl xs = l # ls"
    using split_nl_not_Nil [of xs] by (cases "split_nl xs") auto
  obtain m ms where m: "split_nl ys = m # ms"
    using split_nl_not_Nil [of ys] by (cases "split_nl ys") auto
  from Cons.IH have lm: "list_all2 glyph_rel l m" and r: "list_all2 (list_all2 glyph_rel) ls ms"
    unfolding l m by simp_all
  have nl: "(x = NEWLINE) = (y = NEWLINE)" by (rule glyph_rel_newline [OF Cons.hyps(1)])
  show ?case
  proof (cases "x = NEWLINE")
    case True
    with nl have "y = NEWLINE" by simp
    with True Cons.IH show ?thesis by simp
  next
    case False
    with nl have "y \<noteq> NEWLINE" by simp
    with False lm r Cons.hyps(1) show ?thesis by (simp add: l m)
  qed
qed

lemma rel_skip_span:
  "list_all2 glyph_rel xs ys \<Longrightarrow> list_all2 glyph_rel (skip_span run xs) (skip_span run ys)"
proof (induction run xs arbitrary: ys rule: skip_span.induct)
  case (1 run)
  then show ?case by simp
next
  case (2 run c cs)
  from "2.prems" obtain d ds where ys: "ys = d # ds" and cd: "glyph_rel c d"
    and r: "list_all2 glyph_rel cs ds"
    by (auto simp: list_all2_Cons1)
  have bt: "(c = BACKTICK) = (d = BACKTICK)" by (rule glyph_rel_backtick [OF cd])
  have run_eq: "takeWhile (\<lambda>c. c = BACKTICK) cs = takeWhile (\<lambda>c. c = BACKTICK) ds"
    by (rule rel_backtick_run [OF r])
  have dr: "list_all2 glyph_rel (dropWhile (\<lambda>c. c = BACKTICK) cs) (dropWhile (\<lambda>c. c = BACKTICK) ds)"
    by (rule rel_dropWhile [OF r glyph_rel_backtick])
  show ?case
  proof (cases "c = BACKTICK")
    case True
    with bt have d: "d = BACKTICK" by simp
    show ?thesis
    proof (cases "run \<le> length (takeWhile (\<lambda>c. c = BACKTICK) (c # cs))")
      case True
      with \<open>c = BACKTICK\<close> d run_eq dr ys show ?thesis by simp
    next
      case False
      from "2.IH"(1) [OF \<open>c = BACKTICK\<close> False dr] False \<open>c = BACKTICK\<close> d run_eq ys
      show ?thesis by simp
    qed
  next
    case False
    with bt have d: "d \<noteq> BACKTICK" by simp
    from "2.IH"(2) [OF False r] False d ys show ?thesis by simp
  qed
qed

lemma rel_after_span:
  assumes "list_all2 glyph_rel xs ys"
  shows "list_all2 glyph_rel (after_span xs) (after_span ys)"
  unfolding after_span_def rel_backtick_run [OF assms]
  by (rule rel_skip_span [OF rel_dropWhile [OF assms glyph_rel_backtick]])

lemma rel_line_prose_from:
  "list_all2 glyph_rel xs ys \<Longrightarrow> line_prose_from i xs = line_prose_from i ys"
proof (induction i xs arbitrary: ys rule: line_prose_from.induct)
  case (1 i)
  then show ?case by simp
next
  case (2 i c cs)
  from "2.prems" obtain d ds where ys: "ys = d # ds" and cd: "glyph_rel c d"
    and r: "list_all2 glyph_rel cs ds"
    by (auto simp: list_all2_Cons1)
  have bt: "(c = BACKTICK) = (d = BACKTICK)" by (rule glyph_rel_backtick [OF cd])
  show ?case
  proof (cases "c = BACKTICK")
    case True
    with bt have d: "d = BACKTICK" by simp
    have a: "list_all2 glyph_rel (after_span (c # cs)) (after_span (d # ds))"
      using rel_after_span [OF "2.prems"] ys by simp
    have len: "length (after_span (c # cs)) = length (after_span (d # ds))"
      by (rule list_all2_lengthD [OF a])
    have len2: "length cs = length ds" by (rule list_all2_lengthD [OF r])
    from "2.IH"(1) [OF True a] True d len len2 ys show ?thesis by simp
  next
    case False
    with bt have d: "d \<noteq> BACKTICK" by simp
    from "2.IH"(2) [OF False r] False d ys show ?thesis by simp
  qed
qed

lemma rel_prose_lines:
  "list_all2 (list_all2 glyph_rel) ls ms \<Longrightarrow> (\<forall>f. st = Some f \<longrightarrow> (\<forall>k \<in> set f. plain k)) \<Longrightarrow>
   prose_lines st pos ls = prose_lines st pos ms"
proof (induction st pos ls arbitrary: ms rule: prose_lines.induct)
  case (1 st pos)
  then show ?case by simp
next
  case (2 pos line ls)
  from "2.prems"(1) obtain m ms' where ms: "ms = m # ms'" and lm: "list_all2 glyph_rel line m"
    and r: "list_all2 (list_all2 glyph_rel) ls ms'"
    by (auto simp: list_all2_Cons1)
  have len: "length line = length m" by (rule list_all2_lengthD [OF lm])
  show ?case
  proof (cases "opens_fence line")
    case True
    then have om: "opens_fence m" using rel_opens_fence [OF lm] by simp
    have "prose_lines (Some (fence_marker line)) (pos + length line + 1) ls
        = prose_lines (Some (fence_marker line)) (pos + length line + 1) ms'"
      by (rule "2.IH"(1) [OF True r]) (simp add: fence_marker_plain)
    then show ?thesis
      using True om len rel_fence_marker [OF lm] ms by simp
  next
    case False
    then have om: "\<not> opens_fence m" using rel_opens_fence [OF lm] by simp
    have "prose_lines None (pos + length line + 1) ls
        = prose_lines None (pos + length line + 1) ms'"
      by (rule "2.IH"(2) [OF False r]) simp
    then show ?thesis
      using False om len rel_line_prose_from [OF lm, of 0] ms by simp
  qed
next
  case (3 fence pos line ls)
  from "3.prems"(1) obtain m ms' where ms: "ms = m # ms'" and lm: "list_all2 glyph_rel line m"
    and r: "list_all2 (list_all2 glyph_rel) ls ms'"
    by (auto simp: list_all2_Cons1)
  have len: "length line = length m" by (rule list_all2_lengthD [OF lm])
  from "3.prems"(2) have pf: "\<forall>k \<in> set fence. plain k" by simp
  have cl: "closes_fence fence line = closes_fence fence m"
    by (rule rel_closes_fence [OF lm pf])
  have "prose_lines (if closes_fence fence line then None else Some fence) (pos + length line + 1) ls
      = prose_lines (if closes_fence fence line then None else Some fence) (pos + length line + 1) ms'"
    by (rule "3.IH" [OF r]) (simp add: pf)
  then show ?case using cl len ms by simp
qed

lemma rel_prose_offset_set:
  assumes "list_all2 glyph_rel xs ys"
  shows "prose_offset_set xs = prose_offset_set ys"
  unfolding prose_offset_set_def prose_offset_list_def
  using rel_prose_lines [OF rel_split_nl [OF assms], of None 0] by simp

section \<open>Idempotence of the rewriter\<close>

lemma rel_fix_loop: "list_all2 glyph_rel s (fix_loop content P skip i cnt s)"
proof (induction s arbitrary: i cnt)
  case Nil
  then show ?case by simp
next
  case (Cons c cs)
  show ?case
  proof (cases "is_rewritten content P skip i c")
    case True
    then have "c = STRAIGHT_DOUBLE \<or> c = STRAIGHT_APOSTROPHE"
      by (simp add: is_rewritten_def)
    then show ?thesis
      using True Cons.IH by (auto simp add: fix_loop_Cons glyph_rel_def simp del: fix_loop.simps(2))
  next
    case False
    then show ?thesis
      using Cons.IH by (simp add: fix_loop_Cons glyph_rel_refl del: fix_loop.simps(2))
  qed
qed

lemma rel_fix_prose_quotes: "list_all2 glyph_rel content (fix_prose_quotes content skip)"
  unfolding fix_prose_quotes_def by (rule rel_fix_loop)

lemma rel_py_find:
  assumes "list_all2 glyph_rel xs ys"
  shows "py_find NEWLINE xs = py_find NEWLINE ys"
  using assms
proof (induction rule: list_all2_induct)
  case Nil
  then show ?case by simp
next
  case (Cons x xs y ys)
  then show ?case using glyph_rel_newline [of x y] by simp
qed

lemma rel_line_around:
  assumes "list_all2 glyph_rel xs ys"
  shows "list_all2 glyph_rel (line_around xs i) (line_around ys i)"
proof -
  have len: "length xs = length ys" by (rule list_all2_lengthD [OF assms])
  have a: "py_rfind NEWLINE (take i xs) = py_rfind NEWLINE (take i ys)"
    unfolding py_rfind_def
    using rel_py_find [OF list_all2_rev [THEN iffD2, OF list_all2_takeI [OF assms, of i]]] len
    by (simp add: Let_def)
  have b: "find_from NEWLINE xs i = find_from NEWLINE ys i"
    unfolding find_from_def
    using rel_py_find [OF list_all2_dropI [OF assms, of i]] by simp
  show ?thesis
    unfolding line_around_def a b len slice_def Let_def
    by (intro list_all2_takeI list_all2_dropI assms)
qed

lemma avoid_word_plain: "\<forall>k \<in> set (ustr ''Avoid''). plain k"
  by (simp add: ustr_def plain_def)

lemma avoid_dash_plain: "\<forall>k \<in> set (ustr ''- Avoid:''). plain k"
  by (simp add: ustr_def plain_def)

lemma rel_opt_star:
  assumes "list_all2 glyph_rel xs ys"
  shows "list_all2 glyph_rel (if take 1 xs = [42] then drop 1 xs else xs)
           (if take 1 ys = [42] then drop 1 ys else ys)"
proof -
  have "(take 1 xs = [42]) = (take 1 ys = [42])"
    by (rule rel_eq_plain [OF list_all2_takeI [OF assms]]) (simp add: plain_def)
  then show ?thesis
    using assms list_all2_dropI [OF assms, of 1] by simp
qed

lemma rel_avoid_regex:
  assumes "list_all2 glyph_rel xs ys"
  shows "avoid_regex xs = avoid_regex ys"
proof -
  let ?p = "\<lambda>c. is_space c \<or> c = 45"
  have p: "?p a = ?p b" if "glyph_rel a b" for a b
    using glyph_rel_space [OF that] glyph_rel_plain [OF that, of 45] by (simp add: plain_def)
  have r1: "list_all2 glyph_rel (dropWhile ?p xs) (dropWhile ?p ys)"
    using assms p by (rule rel_dropWhile)
  note r2 = rel_opt_star [OF r1]
  note r3 = list_all2_dropI [OF r2, of 5]
  note r4 = rel_opt_star [OF r3]
  have s: "startswith (if take 1 (dropWhile ?p xs) = [42] then drop 1 (dropWhile ?p xs) else dropWhile ?p xs)
             (ustr ''Avoid'')
         = startswith (if take 1 (dropWhile ?p ys) = [42] then drop 1 (dropWhile ?p ys) else dropWhile ?p ys)
             (ustr ''Avoid'')"
    by (rule rel_startswith [OF r2 avoid_word_plain])
  have c: "(take 1 (if take 1 (drop 5 (if take 1 (dropWhile ?p xs) = [42] then drop 1 (dropWhile ?p xs) else dropWhile ?p xs)) = [42]
                    then drop 1 (drop 5 (if take 1 (dropWhile ?p xs) = [42] then drop 1 (dropWhile ?p xs) else dropWhile ?p xs))
                    else drop 5 (if take 1 (dropWhile ?p xs) = [42] then drop 1 (dropWhile ?p xs) else dropWhile ?p xs)) = [58])
         = (take 1 (if take 1 (drop 5 (if take 1 (dropWhile ?p ys) = [42] then drop 1 (dropWhile ?p ys) else dropWhile ?p ys)) = [42]
                    then drop 1 (drop 5 (if take 1 (dropWhile ?p ys) = [42] then drop 1 (dropWhile ?p ys) else dropWhile ?p ys))
                    else drop 5 (if take 1 (dropWhile ?p ys) = [42] then drop 1 (dropWhile ?p ys) else dropWhile ?p ys)) = [58])"
    by (rule rel_eq_plain [OF list_all2_takeI [OF r4]]) (simp add: plain_def)
  show ?thesis
    unfolding avoid_regex_def Let_def s c ..
qed

lemma rel_contains:
  assumes "list_all2 glyph_rel xs ys" and "\<forall>k \<in> set p. plain k"
  shows "contains xs p = contains ys p"
  using assms(1)
proof (induction rule: list_all2_induct)
  case Nil
  then show ?case by simp
next
  case (Cons x xs y ys)
  have "list_all2 glyph_rel (x # xs) (y # ys)" using Cons.hyps by simp
  from rel_startswith [OF this assms(2)] Cons.IH show ?case by simp
qed

lemma rel_is_avoid_line:
  assumes "list_all2 glyph_rel xs ys"
  shows "is_avoid_line xs = is_avoid_line ys"
  unfolding is_avoid_line_def
  using rel_avoid_regex [OF assms]
    rel_contains [OF list_all2_takeI [OF assms, of 20] avoid_dash_plain]
  by simp

lemma fix_loop_fixpoint:
  "(\<forall>k < length s. \<not> is_rewritten content P skip (i + k) (s ! k)) \<Longrightarrow>
   fix_loop content P skip i cnt s = s"
proof (induction s arbitrary: i cnt)
  case Nil
  then show ?case by simp
next
  case (Cons c cs)
  from Cons.prems have h: "\<not> is_rewritten content P skip i c" by fastforce
  have "\<forall>k < length cs. \<not> is_rewritten content P skip (Suc i + k) (cs ! k)"
  proof (intro allI impI)
    fix k assume "k < length cs"
    then have "Suc k < length (c # cs)" by simp
    with Cons.prems have "\<not> is_rewritten content P skip (i + Suc k) ((c # cs) ! Suc k)"
      by blast
    then show "\<not> is_rewritten content P skip (Suc i + k) (cs ! k)" by simp
  qed
  from Cons.IH [OF this] h show ?case
    by (simp add: fix_loop_Cons del: fix_loop.simps(2))
qed

lemma fix_output_settled:
  assumes "k < length content"
  shows "\<not> is_rewritten (fix_prose_quotes content skip)
            (prose_offset_set (fix_prose_quotes content skip)) skip k
            (fix_prose_quotes content skip ! k)"
proof -
  let ?out = "fix_prose_quotes content skip"
  have P: "prose_offset_set ?out = prose_offset_set content"
    by (rule rel_prose_offset_set [OF rel_fix_prose_quotes, symmetric])
  have av: "is_avoid_line (line_around ?out k) = is_avoid_line (line_around content k)"
    by (rule rel_is_avoid_line [OF rel_line_around [OF rel_fix_prose_quotes], symmetric])
  show ?thesis
  proof (cases "is_rewritten content (prose_offset_set content) skip k (content ! k)")
    case True
    with fix_prose_quotes_nth [OF assms, of skip]
    have "?out ! k \<noteq> STRAIGHT_DOUBLE \<and> ?out ! k \<noteq> STRAIGHT_APOSTROPHE"
      by (auto split: if_splits)
    then show ?thesis by (simp add: is_rewritten_def)
  next
    case False
    with fix_prose_quotes_nth [OF assms, of skip] have "?out ! k = content ! k" by simp
    with False show ?thesis unfolding is_rewritten_def P av by simp
  qed
qed

text \<open>
  C1. Applying \<open>fix_prose_quotes\<close> to its own output changes nothing, for every document
  and either setting of the exemption flag.
\<close>

theorem fix_prose_quotes_idempotent:
  "fix_prose_quotes (fix_prose_quotes content skip) skip = fix_prose_quotes content skip"
proof -
  let ?out = "fix_prose_quotes content skip"
  have "\<forall>k < length ?out. \<not> is_rewritten ?out (prose_offset_set ?out) skip (0 + k) (?out ! k)"
    using fix_output_settled [of _ content skip] by (simp add: length_fix_prose_quotes)
  from fix_loop_fixpoint [OF this] show ?thesis
    by (simp add: fix_prose_quotes_def)
qed

lemma avoid_two_lines_eval:
  "fix_prose_quotes (ustr ''- Avoid: \"x\"'' @ [NEWLINE] @ ustr ''\"y\"'') True
   = ustr ''- Avoid: \"x\"'' @ [NEWLINE, FANCY_OPEN_DOUBLE, 121, FANCY_CLOSE_DOUBLE]"
  by (simp add: fix_eval)

theorem fix_prose_quotes_idempotent_witness:
  "fix_prose_quotes
     (fix_prose_quotes (ustr ''- Avoid: \"x\"'' @ [NEWLINE] @ ustr ''\"y\"'') True) True
   = ustr ''- Avoid: \"x\"'' @ [NEWLINE, FANCY_OPEN_DOUBLE, 121, FANCY_CLOSE_DOUBLE]"
  using fix_prose_quotes_idempotent [of "ustr ''- Avoid: \"x\"'' @ [NEWLINE] @ ustr ''\"y\"''" True]
  by (simp only: avoid_two_lines_eval)

section \<open>Shape of the rewritten document\<close>

lemma rel_count_newlines:
  assumes "list_all2 glyph_rel xs ys"
  shows "count_list xs NEWLINE = count_list ys NEWLINE"
  using assms
proof (induction rule: list_all2_induct)
  case Nil
  then show ?case by simp
next
  case (Cons x xs y ys)
  then show ?case using glyph_rel_newline [of x y] by simp
qed

lemma rel_newline_mem:
  assumes "list_all2 glyph_rel xs ys"
  shows "(NEWLINE \<in> set xs) = (NEWLINE \<in> set ys)"
  using assms
proof (induction rule: list_all2_induct)
  case Nil
  then show ?case by simp
next
  case (Cons x xs y ys)
  then show ?case using glyph_rel_newline [of x y] by auto
qed

lemma rel_line_and_column:
  assumes "list_all2 glyph_rel xs ys"
  shows "line_and_column xs off = line_and_column ys off"
proof -
  note t = list_all2_takeI [OF assms, of off]
  have len: "length (take off xs) = length (take off ys)" by (rule list_all2_lengthD [OF t])
  have "py_find NEWLINE (rev (take off xs)) = py_find NEWLINE (rev (take off ys))"
    by (rule rel_py_find [OF list_all2_rev [THEN iffD2, OF t]])
  then have r: "py_rfind NEWLINE (take off xs) = py_rfind NEWLINE (take off ys)"
    unfolding py_rfind_def using len by (simp add: Let_def)
  show ?thesis
    unfolding line_and_column_def Let_def r rel_count_newlines [OF t] rel_newline_mem [OF t] ..
qed

text \<open>
  C10. The output of \<open>fix_prose_quotes\<close> has as many characters as the input, whatever the
  flag, and an offset holds a newline in the output exactly when it does in the input:
  every replacement puts one glyph in the place of one quote. So the two texts have the
  same number of lines, and every offset has the same line and column in both.
\<close>

theorem fix_prose_quotes_preserves_shape:
  "length (fix_prose_quotes content skip) = length content \<and>
   (\<forall>i < length content.
      fix_prose_quotes content skip ! i = NEWLINE \<longleftrightarrow> content ! i = NEWLINE) \<and>
   length (split_nl (fix_prose_quotes content skip)) = length (split_nl content) \<and>
   (\<forall>off. line_and_column (fix_prose_quotes content skip) off = line_and_column content off)"
proof (intro conjI allI impI)
  show "length (fix_prose_quotes content skip) = length content"
    by (rule length_fix_prose_quotes)
next
  fix i assume "i < length content"
  from fix_prose_quotes_nth [OF this, of skip]
  show "fix_prose_quotes content skip ! i = NEWLINE \<longleftrightarrow> content ! i = NEWLINE"
    by (auto simp: is_rewritten_def split: if_splits)
next
  show "length (split_nl (fix_prose_quotes content skip)) = length (split_nl content)"
    by (rule list_all2_lengthD [OF rel_split_nl [OF rel_fix_prose_quotes], symmetric])
next
  fix off
  show "line_and_column (fix_prose_quotes content skip) off = line_and_column content off"
    by (rule rel_line_and_column [OF rel_fix_prose_quotes, symmetric])
qed

theorem fix_prose_quotes_preserves_shape_witness:
  "(2::nat) < length (ustr ''a'' @ [STRAIGHT_DOUBLE, NEWLINE, STRAIGHT_APOSTROPHE]) \<and>
   length (fix_prose_quotes (ustr ''a'' @ [STRAIGHT_DOUBLE, NEWLINE, STRAIGHT_APOSTROPHE]) False) = 4 \<and>
   fix_prose_quotes (ustr ''a'' @ [STRAIGHT_DOUBLE, NEWLINE, STRAIGHT_APOSTROPHE]) False ! 2 = NEWLINE \<and>
   line_and_column (fix_prose_quotes (ustr ''a'' @ [STRAIGHT_DOUBLE, NEWLINE, STRAIGHT_APOSTROPHE]) False) 3
     = (2, 1)"
proof -
  let ?c = "ustr ''a'' @ [STRAIGHT_DOUBLE, NEWLINE, STRAIGHT_APOSTROPHE]"
  note t = fix_prose_quotes_preserves_shape [of ?c False]
  have a: "length (fix_prose_quotes ?c False) = 4"
    using t [THEN conjunct1] by (simp add: ustr_def)
  have b: "fix_prose_quotes ?c False ! 2 = NEWLINE"
    using t [THEN conjunct2, THEN conjunct1, rule_format, of 2] by (simp add: ustr_def)
  have "line_and_column ?c 3 = (2, 1)"
    by (simp add: line_and_column_def py_rfind_def ustr_def Let_def)
  then have c: "line_and_column (fix_prose_quotes ?c False) 3 = (2, 1)"
    using t [THEN conjunct2, THEN conjunct2, THEN conjunct2, rule_format, of 3] by simp
  from a b c show ?thesis by (simp add: ustr_def)
qed

section \<open>Unterminated inline spans\<close>

text \<open>
  The offsets at which the outer loop of \<open>iter_prose_offsets\<close> and of the line scan of
  \<open>prose_offset_set\<close> finds a backtick (lines 44 and 129): the starts of the opening runs.
  Same loop as \<open>iter_from\<close> and \<open>line_prose_from\<close>, recording the other branch.
\<close>

function span_starts :: "nat \<Rightarrow> ustring \<Rightarrow> nat list" where
  "span_starts i [] = []"
| "span_starts i (c # cs) =
     (if c = BACKTICK
      then i # span_starts (i + (length (c # cs) - length (after_span (c # cs)))) (after_span (c # cs))
      else span_starts (i + 1) cs)"
  by pat_completeness auto
termination
proof (relation "measure (\<lambda>(i, s). length s)")
  show "wf (measure (\<lambda>(i, s). length s))" by simp
next
  fix i :: nat and c :: uchar and cs :: ustring
  assume "c = BACKTICK"
  then show "((i + (length (c # cs) - length (after_span (c # cs))), after_span (c # cs)), i, c # cs)
      \<in> measure (\<lambda>(i, s). length s)"
    using length_after_span [of cs] by simp
next
  fix i :: nat and c :: uchar and cs :: ustring
  show "((i + 1, cs), i, c # cs) \<in> measure (\<lambda>(i, s). length s)" by simp
qed

text \<open>
  The lengths of the maximal backtick runs of a text, in order; the first argument is the
  length of the run being read.
\<close>

fun backtick_runs :: "nat \<Rightarrow> ustring \<Rightarrow> nat list" where
  "backtick_runs n [] = (if n > 0 then [n] else [])"
| "backtick_runs n (c # cs) =
     (if c = BACKTICK then backtick_runs (n + 1) cs
      else (if n > 0 then [n] else []) @ backtick_runs 0 cs)"

text \<open>
  A text that starts with an opening run is unterminated when no backtick run behind the
  opening one is at least as long.
\<close>

definition unterminated :: "ustring \<Rightarrow> bool" where
  "unterminated s \<longleftrightarrow>
     (\<forall>r \<in> set (backtick_runs 0 (dropWhile (\<lambda>c. c = BACKTICK) s)).
        r < length (takeWhile (\<lambda>c. c = BACKTICK) s))"

lemma backtick_runs_split:
  "backtick_runs n s =
     (if n + length (takeWhile (\<lambda>c. c = BACKTICK) s) > 0
      then [n + length (takeWhile (\<lambda>c. c = BACKTICK) s)] else [])
     @ backtick_runs 0 (dropWhile (\<lambda>c. c = BACKTICK) s)"
proof (induction s arbitrary: n)
  case Nil
  then show ?case by simp
next
  case (Cons c cs)
  show ?case
  proof (cases "c = BACKTICK")
    case True
    then show ?thesis using Cons.IH [of "n + 1"] by simp
  next
    case False
    then show ?thesis by simp
  qed
qed

lemma skip_span_no_close:
  "\<forall>r \<in> set (backtick_runs 0 s). r < run \<Longrightarrow> skip_span run s = []"
proof (induction run s rule: skip_span.induct)
  case (1 run)
  then show ?case by simp
next
  case (2 run c cs)
  show ?case
  proof (cases "c = BACKTICK")
    case True
    have sp: "backtick_runs 0 (c # cs) =
        [length (takeWhile (\<lambda>c. c = BACKTICK) (c # cs))]
        @ backtick_runs 0 (dropWhile (\<lambda>c. c = BACKTICK) (c # cs))"
      using backtick_runs_split [of 0 "c # cs"] True by simp
    with "2.prems" have lt: "length (takeWhile (\<lambda>c. c = BACKTICK) (c # cs)) < run"
      and rest: "\<forall>r \<in> set (backtick_runs 0 (dropWhile (\<lambda>c. c = BACKTICK) (c # cs))). r < run"
      by simp_all
    from lt have nle: "\<not> run \<le> length (takeWhile (\<lambda>c. c = BACKTICK) (c # cs))" by simp
    from rest True have "\<forall>r \<in> set (backtick_runs 0 (dropWhile (\<lambda>c. c = BACKTICK) cs)). r < run"
      by simp
    from "2.IH"(1) [OF True nle this] True nle show ?thesis by simp
  next
    case False
    with "2.prems" have "\<forall>r \<in> set (backtick_runs 0 cs). r < run" by simp
    from "2.IH"(2) [OF False this] False show ?thesis by simp
  qed
qed

lemma unterminated_after_span: "unterminated s \<Longrightarrow> after_span s = []"
  unfolding unterminated_def after_span_def by (rule skip_span_no_close)

lemma skip_span_suffix: "skip_span run s = drop (length s - length (skip_span run s)) s"
proof (induction run s rule: skip_span.induct)
  case (1 run)
  then show ?case by simp
next
  case (2 run c cs)
  have dw: "dropWhile (\<lambda>c. c = BACKTICK) cs
      = drop (length cs - length (dropWhile (\<lambda>c. c = BACKTICK) cs)) cs"
    by (metis append_eq_conv_conj diff_add_inverse2 length_append takeWhile_dropWhile_id)
  show ?case
  proof (cases "c = BACKTICK")
    case True
    show ?thesis
    proof (cases "run \<le> length (takeWhile (\<lambda>c. c = BACKTICK) (c # cs))")
      case le: True
      have "length (dropWhile (\<lambda>c. c = BACKTICK) cs) \<le> length cs"
        by (rule length_dropWhile_le)
      then have "Suc (length cs) - length (dropWhile (\<lambda>c. c = BACKTICK) cs)
          = Suc (length cs - length (dropWhile (\<lambda>c. c = BACKTICK) cs))"
        by simp
      with True le dw show ?thesis by simp
    next
      case nle: False
      let ?d = "dropWhile (\<lambda>c. c = BACKTICK) cs"
      let ?r = "skip_span run ?d"
      have ih: "?r = drop (length ?d - length ?r) ?d"
        by (rule "2.IH"(1) [OF True nle])
      have l1: "length ?r \<le> length ?d" by (rule length_skip_span)
      have l2: "length ?d \<le> length cs" by (rule length_dropWhile_le)
      have "drop (length ?d - length ?r) ?d
          = drop (length ?d - length ?r) (drop (length cs - length ?d) cs)"
        using dw by simp
      also have "\<dots> = drop (length cs - length ?r) cs"
        using l1 l2 by simp
      finally have "?r = drop (length cs - length ?r) cs" using ih by simp
      moreover have "Suc (length cs) - length ?r = Suc (length cs - length ?r)"
        using l1 l2 by simp
      ultimately show ?thesis using True nle by simp
    qed
  next
    case False
    have l: "length (skip_span run cs) \<le> length cs" by (rule length_skip_span)
    then have "Suc (length cs) - length (skip_span run cs)
        = Suc (length cs - length (skip_span run cs))" by simp
    with "2.IH"(2) [OF False] False show ?thesis by simp
  qed
qed

lemma after_span_suffix: "after_span s = drop (length s - length (after_span s)) s"
proof -
  let ?d = "dropWhile (\<lambda>c. c = BACKTICK) s"
  let ?r = "after_span s"
  have dw: "?d = drop (length s - length ?d) s"
    by (metis append_eq_conv_conj diff_add_inverse2 length_append takeWhile_dropWhile_id)
  have r: "?r = drop (length ?d - length ?r) ?d"
    unfolding after_span_def by (rule skip_span_suffix)
  have l1: "length ?r \<le> length ?d"
    unfolding after_span_def by (rule length_skip_span)
  have l2: "length ?d \<le> length s" by (rule length_dropWhile_le)
  have "drop (length ?d - length ?r) ?d
      = drop (length ?d - length ?r) (drop (length s - length ?d) s)"
    using dw by simp
  also have "\<dots> = drop (length s - length ?r) s"
    using l1 l2 by simp
  finally show ?thesis using r by simp
qed

lemma iter_from_fst: "map fst (iter_from i s) = line_prose_from i s"
proof (induction i s rule: line_prose_from.induct)
  case (1 i)
  then show ?case by simp
next
  case (2 i c cs)
  then show ?case by (cases "c = BACKTICK") simp_all
qed

lemma span_starts_bounds:
  "p \<in> set (span_starts i s) \<Longrightarrow> i \<le> p \<and> p < i + length s"
proof (induction i s rule: span_starts.induct)
  case (1 i)
  then show ?case by simp
next
  case (2 i c cs)
  show ?case
  proof (cases "c = BACKTICK")
    case True
    let ?s' = "after_span (c # cs)"
    let ?i' = "i + (length (c # cs) - length ?s')"
    have l: "length ?s' \<le> length cs" using length_after_span [of cs] True by simp
    from "2.prems" True have "p = i \<or> p \<in> set (span_starts ?i' ?s')" by simp
    then show ?thesis
    proof
      assume "p = i"
      then show ?thesis by simp
    next
      assume "p \<in> set (span_starts ?i' ?s')"
      from "2.IH"(1) [OF True this] l show ?thesis by auto
    qed
  next
    case False
    with "2.prems" have "p \<in> set (span_starts (i + 1) cs)" by simp
    from "2.IH"(2) [OF False this] show ?thesis by simp
  qed
qed

lemma iter_from_bounds:
  "(q, ch) \<in> set (iter_from i s) \<Longrightarrow> i \<le> q \<and> q < i + length s \<and> s ! (q - i) = ch"
proof (induction i s rule: iter_from.induct)
  case (1 i)
  then show ?case by simp
next
  case (2 i c cs)
  show ?case
  proof (cases "c = BACKTICK")
    case True
    let ?s' = "after_span (c # cs)"
    let ?k = "length (c # cs) - length ?s'"
    have l: "length ?s' \<le> length cs" using length_after_span [of cs] True by simp
    have suf: "?s' = drop ?k (c # cs)" by (rule after_span_suffix)
    from "2.prems" True have "(q, ch) \<in> set (iter_from (i + ?k) ?s')" by simp
    from "2.IH"(1) [OF True this]
    have a: "i + ?k \<le> q" and b: "q < i + ?k + length ?s'" and c: "?s' ! (q - (i + ?k)) = ch"
      by simp_all
    have "?s' ! (q - (i + ?k)) = (c # cs) ! (?k + (q - (i + ?k)))"
      using b l by (subst suf) (simp del: drop_Suc_Cons)
    also have "?k + (q - (i + ?k)) = q - i" using a by simp
    finally have "(c # cs) ! (q - i) = ch" using c by simp
    with a b l show ?thesis by simp
  next
    case False
    with "2.prems" have "(q, ch) = (i, c) \<or> (q, ch) \<in> set (iter_from (i + 1) cs)" by simp
    then show ?thesis
    proof
      assume "(q, ch) = (i, c)"
      then show ?thesis by simp
    next
      assume "(q, ch) \<in> set (iter_from (i + 1) cs)"
      from "2.IH"(2) [OF False this]
      have a: "i + 1 \<le> q" and b: "q < i + 1 + length cs" and c: "cs ! (q - (i + 1)) = ch"
        by simp_all
      from a have m: "q - i = Suc (q - (i + 1))" by arith
      have "(c # cs) ! (q - i) = ch" unfolding m using c by simp
      with a b show ?thesis by simp
    qed
  qed
qed

lemma iter_from_no_backtick: "(q, ch) \<in> set (iter_from i s) \<Longrightarrow> ch \<noteq> BACKTICK"
proof (induction i s rule: iter_from.induct)
  case (1 i)
  then show ?case by simp
next
  case (2 i c cs)
  then show ?case by (cases "c = BACKTICK") auto
qed

lemma swallowed_from_open:
  "p \<in> set (span_starts i s) \<Longrightarrow> unterminated (drop (p - i) s) \<Longrightarrow>
   \<forall>q \<in> set (line_prose_from i s). q < p"
proof (induction i s rule: line_prose_from.induct)
  case (1 i)
  then show ?case by simp
next
  case (2 i c cs)
  show ?case
  proof (cases "c = BACKTICK")
    case True
    let ?s' = "after_span (c # cs)"
    let ?k = "length (c # cs) - length ?s'"
    have l: "length ?s' \<le> length cs" using length_after_span [of cs] True by simp
    have suf: "?s' = drop ?k (c # cs)" by (rule after_span_suffix)
    from "2.prems"(1) True have "p = i \<or> p \<in> set (span_starts (i + ?k) ?s')" by simp
    then show ?thesis
    proof
      assume "p = i"
      with "2.prems"(2) have "unterminated (c # cs)" by simp
      then have "?s' = []" by (rule unterminated_after_span)
      with True show ?thesis by simp
    next
      assume p: "p \<in> set (span_starts (i + ?k) ?s')"
      then have ge: "i + ?k \<le> p" using span_starts_bounds by blast
      have "drop (p - (i + ?k)) ?s' = drop (p - (i + ?k)) (drop ?k (c # cs))"
        using suf by simp
      also have "\<dots> = drop (p - i) (c # cs)"
        using ge by (simp del: drop_Suc_Cons)
      finally have "unterminated (drop (p - (i + ?k)) ?s')" using "2.prems"(2) by simp
      from "2.IH"(1) [OF True p this] True show ?thesis by simp
    qed
  next
    case False
    with "2.prems"(1) have p: "p \<in> set (span_starts (i + 1) cs)" by simp
    then have ge: "i + 1 \<le> p" using span_starts_bounds by blast
    then have m: "p - i = Suc (p - (i + 1))" by arith
    have "drop (p - (i + 1)) cs = drop (p - i) (c # cs)"
      unfolding m by simp
    with "2.prems"(2) have "unterminated (drop (p - (i + 1)) cs)" by simp
    from "2.IH"(2) [OF False p this] ge False show ?thesis by simp
  qed
qed

text \<open>
  C5. In the straight-in-prose scan, when the outer loop meets an opening backtick run at
  offset \<open>p\<close> and no later backtick run of the text is at least as long, every character
  from \<open>p\<close> to the end of the text is skipped, across line boundaries too: each reported
  offset lies before \<open>p\<close>.
\<close>

theorem unterminated_span_swallows_rest:
  assumes "p \<in> set (span_starts 0 prose)" and "unterminated (drop p prose)"
  shows "\<forall>(off, ch) \<in> set (find_straight_quotes_in_prose prose). off < p"
proof -
  have "\<forall>q \<in> set (line_prose_from 0 prose). q < p"
    using swallowed_from_open [of p 0 prose] assms by simp
  then have "\<forall>q \<in> set (map fst (iter_prose_offsets prose)). q < p"
    by (simp only: iter_from_fst iter_prose_offsets_def)
  then show ?thesis
    by (auto simp: find_straight_quotes_in_prose_def)
qed

lemmas span_eval = ustr_def after_span_def unterminated_def iter_prose_offsets_def
  find_straight_quotes_in_prose_def

theorem unterminated_span_swallows_rest_witness:
  "3 \<in> set (span_starts 0 (ustr ''a\"b`c\"'' @ [NEWLINE] @ ustr ''d'e'')) \<and>
   unterminated (drop 3 (ustr ''a\"b`c\"'' @ [NEWLINE] @ ustr ''d'e'')) \<and>
   find_straight_quotes_in_prose (ustr ''a\"b`c\"'' @ [NEWLINE] @ ustr ''d'e'')
     = [(1, STRAIGHT_DOUBLE)]"
proof -
  let ?p = "ustr ''a\"b`c\"'' @ [NEWLINE] @ ustr ''d'e''"
  have a: "3 \<in> set (span_starts 0 ?p)" by (simp add: span_eval)
  have b: "unterminated (drop 3 ?p)" by (simp add: span_eval)
  have c: "find_straight_quotes_in_prose ?p = [(1, STRAIGHT_DOUBLE)]" by (simp add: span_eval)
  from unterminated_span_swallows_rest [OF a b] a b c show ?thesis by simp
qed

section \<open>Inline spans and line boundaries in the prose offsets\<close>

text \<open>
  The fence state of the loop of \<open>prose_offset_set\<close> after a list of lines, and the offset
  at which the next line starts (\<open>pos\<close> grows by \<open>len(line) + 1\<close> per line).
\<close>

fun fence_after :: "ustring option \<Rightarrow> ustring list \<Rightarrow> ustring option" where
  "fence_after st [] = st"
| "fence_after None (line # ls) =
     fence_after (if opens_fence line then Some (fence_marker line) else None) ls"
| "fence_after (Some fence) (line # ls) =
     fence_after (if closes_fence fence line then None else Some fence) ls"

definition line_offset :: "ustring list \<Rightarrow> nat" where
  "line_offset ls = sum_list (map (\<lambda>l. length l + 1) ls)"

lemma line_prose_from_bounds:
  "q \<in> set (line_prose_from i s) \<Longrightarrow> i \<le> q \<and> q < i + length s"
proof -
  assume "q \<in> set (line_prose_from i s)"
  then have "q \<in> fst ` set (iter_from i s)"
    by (simp only: iter_from_fst [symmetric] set_map)
  then obtain ch where "(q, ch) \<in> set (iter_from i s)" by auto
  from iter_from_bounds [OF this] show ?thesis by simp
qed

lemma prose_lines_bounds:
  "x \<in> set (prose_lines st pos ls) \<Longrightarrow> pos \<le> x \<and> x < pos + line_offset ls"
proof (induction st pos ls rule: prose_lines.induct)
  case (1 st pos)
  then show ?case by simp
next
  case (2 pos line ls)
  show ?case
  proof (cases "opens_fence line")
    case True
    with "2.prems" have "x \<in> set (prose_lines (Some (fence_marker line)) (pos + length line + 1) ls)"
      by simp
    from "2.IH"(1) [OF True this] show ?thesis by (simp add: line_offset_def)
  next
    case False
    with "2.prems" have "x \<in> (\<lambda>i. pos + i) ` set (line_prose_from 0 line)
        \<or> x \<in> set (prose_lines None (pos + length line + 1) ls)"
      by auto
    then show ?thesis
    proof
      assume "x \<in> (\<lambda>i. pos + i) ` set (line_prose_from 0 line)"
      then obtain q where "q \<in> set (line_prose_from 0 line)" and "x = pos + q" by auto
      with line_prose_from_bounds [of q 0 line] show ?thesis by (simp add: line_offset_def)
    next
      assume "x \<in> set (prose_lines None (pos + length line + 1) ls)"
      from "2.IH"(2) [OF False this] show ?thesis by (simp add: line_offset_def)
    qed
  qed
next
  case (3 fence pos line ls)
  from "3.prems"
  have "x \<in> set (prose_lines (if closes_fence fence line then None else Some fence)
                  (pos + length line + 1) ls)"
    by simp
  from "3.IH" [OF this] show ?case by (simp add: line_offset_def)
qed

lemma prose_lines_append:
  "prose_lines st pos (ls @ ms) =
     prose_lines st pos ls @ prose_lines (fence_after st ls) (pos + line_offset ls) ms"
proof (induction st pos ls rule: prose_lines.induct)
  case (1 st pos)
  then show ?case by (simp add: line_offset_def)
next
  case (2 pos line ls)
  then show ?case by (cases "opens_fence line") (simp_all add: line_offset_def add.assoc)
next
  case (3 fence pos line ls)
  then show ?case by (simp add: line_offset_def add.assoc)
qed

lemma prose_lines_shift:
  "prose_lines st (pos + k) ls = map (\<lambda>x. x + k) (prose_lines st pos ls)"
proof (induction st pos ls arbitrary: k rule: prose_lines.induct)
  case (1 st pos)
  then show ?case by simp
next
  case (2 pos line ls)
  have a: "pos + k + length line + 1 = pos + length line + 1 + k" by simp
  show ?case
  proof (cases "opens_fence line")
    case True
    from "2.IH"(1) [OF True, of k] True show ?thesis by (simp only: a prose_lines.simps if_True)
  next
    case False
    have b: "map (\<lambda>i. pos + k + i) (line_prose_from 0 line)
        = map (\<lambda>x. x + k) (map (\<lambda>i. pos + i) (line_prose_from 0 line))"
      by simp
    from "2.IH"(2) [OF False, of k] False show ?thesis
      by (simp only: a b prose_lines.simps if_False map_append)
  qed
next
  case (3 fence pos line ls)
  have a: "pos + k + length line + 1 = pos + length line + 1 + k" by simp
  from "3.IH" [of k] show ?case by (simp only: a prose_lines.simps)
qed

lemma prose_offsets_around_line:
  assumes "split_nl content = before @ line # after"
    and "fence_after None before = None" and "\<not> opens_fence line"
  shows "prose_offset_set content =
     set (prose_lines None 0 before)
     \<union> (\<lambda>q. line_offset before + q) ` set (line_prose_from 0 line)
     \<union> (\<lambda>x. x + (line_offset before + length line + 1)) ` set (prose_lines None 0 after)"
proof -
  have "prose_lines None (line_offset before + length line + 1) after
      = map (\<lambda>x. x + (line_offset before + length line + 1)) (prose_lines None 0 after)"
    using prose_lines_shift [of None 0 "line_offset before + length line + 1" after] by simp
  then show ?thesis
    unfolding prose_offset_set_def prose_offset_list_def assms(1) prose_lines_append assms(2)
    using assms(3) by (simp add: Un_assoc)
qed

text \<open>
  The number of characters an inline span takes in the text that starts with its opening
  run: the opening run, what it encloses and the closing run, or everything up to the end
  when no run closes it.
\<close>

definition span_length :: "ustring \<Rightarrow> nat" where
  "span_length s = length s - length (after_span s)"

lemma takeWhile_run:
  "takeWhile (\<lambda>c. c = BACKTICK) (replicate m BACKTICK @ ys)
   = replicate m BACKTICK @ takeWhile (\<lambda>c. c = BACKTICK) ys"
  by (induction m) simp_all

lemma dropWhile_run:
  "dropWhile (\<lambda>c. c = BACKTICK) (replicate m BACKTICK @ ys)
   = dropWhile (\<lambda>c. c = BACKTICK) ys"
  by (induction m) simp_all

lemma line_prose_from_shift:
  "line_prose_from (i + k) s = map (\<lambda>q. q + k) (line_prose_from i s)"
proof (induction i s arbitrary: k rule: line_prose_from.induct)
  case (1 i)
  then show ?case by simp
next
  case (2 i c cs)
  show ?case
  proof (cases "c = BACKTICK")
    case True
    let ?s' = "after_span (c # cs)"
    let ?d = "length (c # cs) - length ?s'"
    have l: "line_prose_from (i + k) (c # cs) = line_prose_from (i + ?d + k) ?s'"
      using True by (simp add: add.assoc add.commute [of k])
    have r: "line_prose_from i (c # cs) = line_prose_from (i + ?d) ?s'"
      using True by simp
    show ?thesis unfolding l r by (rule "2.IH"(1) [OF True])
  next
    case False
    have l: "line_prose_from (i + k) (c # cs) = (i + k) # line_prose_from (i + 1 + k) cs"
      using False by (simp add: add.assoc add.commute [of k])
    have r: "line_prose_from i (c # cs) = i # line_prose_from (i + 1) cs"
      using False by simp
    show ?thesis unfolding l r using "2.IH"(2) [OF False, of k] by simp
  qed
qed

lemma line_prose_from_resume:
  "p \<in> set (span_starts i s) \<Longrightarrow>
   {q \<in> set (line_prose_from i s). p \<le> q}
   = set (line_prose_from (p + span_length (drop (p - i) s)) (after_span (drop (p - i) s)))"
proof (induction i s rule: line_prose_from.induct)
  case (1 i)
  then show ?case by simp
next
  case (2 i c cs)
  show ?case
  proof (cases "c = BACKTICK")
    case True
    let ?s' = "after_span (c # cs)"
    let ?k = "length (c # cs) - length ?s'"
    have suf: "?s' = drop ?k (c # cs)" by (rule after_span_suffix)
    have lp: "line_prose_from i (c # cs) = line_prose_from (i + ?k) ?s'"
      using True by simp
    from "2.prems" True have "p = i \<or> p \<in> set (span_starts (i + ?k) ?s')" by simp
    then show ?thesis
    proof
      assume pi: "p = i"
      have "\<forall>q \<in> set (line_prose_from (i + ?k) ?s'). i \<le> q"
      proof
        fix q assume "q \<in> set (line_prose_from (i + ?k) ?s')"
        from line_prose_from_bounds [OF this] have "i + ?k \<le> q" by simp
        then show "i \<le> q" by linarith
      qed
      then have "{q \<in> set (line_prose_from (i + ?k) ?s'). i \<le> q}
          = set (line_prose_from (i + ?k) ?s')" by blast
      then show ?thesis unfolding lp pi by (simp add: span_length_def)
    next
      assume p: "p \<in> set (span_starts (i + ?k) ?s')"
      then have ge: "i + ?k \<le> p" using span_starts_bounds by blast
      have "drop (p - (i + ?k)) ?s' = drop (p - (i + ?k)) (drop ?k (c # cs))"
        using suf by simp
      also have "\<dots> = drop (p - i) (c # cs)"
        using ge by (simp del: drop_Suc_Cons)
      finally have d: "drop (p - (i + ?k)) ?s' = drop (p - i) (c # cs)" .
      from "2.IH"(1) [OF True p] show ?thesis unfolding lp d .
    qed
  next
    case False
    with "2.prems" have p: "p \<in> set (span_starts (i + 1) cs)" by simp
    then have ge: "i + 1 \<le> p" using span_starts_bounds by blast
    then have m: "p - i = Suc (p - (i + 1))" by arith
    have d: "drop (p - (i + 1)) cs = drop (p - i) (c # cs)"
      unfolding m by simp
    have "{q \<in> set (line_prose_from i (c # cs)). p \<le> q}
        = {q \<in> set (line_prose_from (i + 1) cs). p \<le> q}"
      using False ge by auto
    with "2.IH"(2) [OF False p] show ?thesis unfolding d by simp
  qed
qed

lemma span_length_le: "span_length s \<le> length s"
  by (simp add: span_length_def)

lemma span_offsets_skipped:
  assumes "p \<in> set (span_starts 0 line)" and "q \<in> set (line_prose_from 0 line)"
  shows "q < p \<or> p + span_length (drop p line) \<le> q"
proof (cases "p \<le> q")
  case True
  with assms(2) have "q \<in> {q \<in> set (line_prose_from 0 line). p \<le> q}" by simp
  then have "q \<in> set (line_prose_from (p + span_length (drop p line)) (after_span (drop p line)))"
    using line_prose_from_resume [OF assms(1)] by simp
  from line_prose_from_bounds [OF this] show ?thesis by simp
next
  case False
  then show ?thesis by simp
qed

text \<open>
  When the closing run exists. The text behind an opening run of \<open>n\<close> backticks is
  \<open>mid\<close>, whose backtick runs are all shorter than \<open>n\<close>, then a run of \<open>m\<close> backticks with
  \<open>m\<close> at least \<open>n\<close>, then \<open>rest\<close>: the scan resumes at \<open>rest\<close>.
\<close>

lemma skip_span_closes:
  "xs = mid @ replicate m BACKTICK @ rest \<Longrightarrow>
   \<forall>r \<in> set (backtick_runs 0 mid). r < n \<Longrightarrow> mid = [] \<or> last mid \<noteq> BACKTICK \<Longrightarrow>
   n \<le> m \<Longrightarrow> 0 < m \<Longrightarrow> rest = [] \<or> hd rest \<noteq> BACKTICK \<Longrightarrow>
   skip_span n xs = rest"
proof (induction n xs arbitrary: mid rule: skip_span.induct)
  case (1 run)
  then show ?case by simp
next
  case (2 run c cs)
  have rest_drop: "dropWhile (\<lambda>c. c = BACKTICK) rest = rest"
    using "2.prems"(6) by (cases rest) auto
  have rest_take: "takeWhile (\<lambda>c. c = BACKTICK) rest = []"
    using "2.prems"(6) by (cases rest) auto
  show ?case
  proof (cases mid)
    case Nil
    with "2.prems"(1,5) obtain m' where m': "m = Suc m'" and c: "c = BACKTICK"
      and cs: "cs = replicate m' BACKTICK @ rest"
      by (cases m) auto
    have t: "takeWhile (\<lambda>c. c = BACKTICK) cs = replicate m' BACKTICK"
      unfolding cs takeWhile_run rest_take by simp
    have d: "dropWhile (\<lambda>c. c = BACKTICK) cs = rest"
      unfolding cs dropWhile_run rest_drop ..
    from "2.prems"(4) m' have "run \<le> length (takeWhile (\<lambda>c. c = BACKTICK) (c # cs))"
      using c t by simp
    with c d show ?thesis by simp
  next
    case (Cons d ds)
    with "2.prems"(1) have cd: "c = d" and cs: "cs = ds @ replicate m BACKTICK @ rest" by simp_all
    from "2.prems"(3) Cons have lm: "last (d # ds) \<noteq> BACKTICK" by simp
    show ?thesis
    proof (cases "c = BACKTICK")
      case True
      with lm cd have ds_ne: "ds \<noteq> []" by auto
      with lm have lds: "last ds \<noteq> BACKTICK" by simp
      then have ex: "\<exists>x \<in> set ds. x \<noteq> BACKTICK" using ds_ne last_in_set by blast
      then obtain x where x: "x \<in> set ds" "\<not> x = BACKTICK" by blast
      have t: "takeWhile (\<lambda>c. c = BACKTICK) cs = takeWhile (\<lambda>c. c = BACKTICK) ds"
        unfolding cs using x by (rule takeWhile_append1)
      have dr: "dropWhile (\<lambda>c. c = BACKTICK) cs
          = dropWhile (\<lambda>c. c = BACKTICK) ds @ replicate m BACKTICK @ rest"
        unfolding cs using x by (rule dropWhile_append1)
      have sp: "backtick_runs 0 (d # ds)
          = [length (takeWhile (\<lambda>c. c = BACKTICK) (d # ds))]
            @ backtick_runs 0 (dropWhile (\<lambda>c. c = BACKTICK) ds)"
        using backtick_runs_split [of 0 "d # ds"] True cd by simp
      from "2.prems"(2) Cons sp
      have lt: "length (takeWhile (\<lambda>c. c = BACKTICK) (d # ds)) < run"
        and rs: "\<forall>r \<in> set (backtick_runs 0 (dropWhile (\<lambda>c. c = BACKTICK) ds)). r < run"
        by simp_all
      have nle: "\<not> run \<le> length (takeWhile (\<lambda>c. c = BACKTICK) (c # cs))"
        using lt t cd True by simp
      have dne: "dropWhile (\<lambda>c. c = BACKTICK) ds \<noteq> []"
        using x by (auto simp: dropWhile_eq_Nil_conv)
      have "last (dropWhile (\<lambda>c. c = BACKTICK) ds) = last ds"
        using dne by (metis last_appendR takeWhile_dropWhile_id)
      with lds have l': "dropWhile (\<lambda>c. c = BACKTICK) ds = [] \<or>
          last (dropWhile (\<lambda>c. c = BACKTICK) ds) \<noteq> BACKTICK" by simp
      from "2.IH"(1) [OF True nle dr rs l' "2.prems"(4) "2.prems"(5) "2.prems"(6)] True nle
      show ?thesis by simp
    next
      case False
      have rs: "\<forall>r \<in> set (backtick_runs 0 ds). r < run"
        using "2.prems"(2) Cons False cd by simp
      have l': "ds = [] \<or> last ds \<noteq> BACKTICK"
        using lm by (cases ds) auto
      from "2.IH"(2) [OF False cs rs l' "2.prems"(4) "2.prems"(5) "2.prems"(6)] False
      show ?thesis by simp
    qed
  qed
qed

lemma after_span_closes:
  assumes "s = replicate n BACKTICK @ mid @ replicate m BACKTICK @ rest"
    and "mid \<noteq> []" and "hd mid \<noteq> BACKTICK" and "last mid \<noteq> BACKTICK"
    and "\<forall>r \<in> set (backtick_runs 0 mid). r < n" and "n \<le> m" and "0 < n"
    and "rest = [] \<or> hd rest \<noteq> BACKTICK"
  shows "after_span s = rest" and "span_length s = n + length mid + m"
proof -
  let ?X = "mid @ replicate m BACKTICK @ rest"
  from assms(2,3) obtain d ds where mid: "mid = d # ds" and d: "d \<noteq> BACKTICK"
    by (cases mid) auto
  have t: "takeWhile (\<lambda>c. c = BACKTICK) s = replicate n BACKTICK"
    unfolding assms(1) mid takeWhile_run using d by simp
  have dr: "dropWhile (\<lambda>c. c = BACKTICK) s = ?X"
    unfolding assms(1) mid dropWhile_run using d by simp
  have "skip_span n ?X = rest"
    by (rule skip_span_closes [OF refl assms(5)]) (use assms in simp_all)
  then show a: "after_span s = rest"
    unfolding after_span_def t dr by simp
  show "span_length s = n + length mid + m"
    unfolding span_length_def a by (simp add: assms(1))
qed

text \<open>
  C6, as the code has it. Take a line that the loop of \<open>prose_offset_set\<close> scans outside a
  fence, and an opening backtick run at index \<open>p\<close> of that line. When no later run of the
  line is at least as long, no offset of the line from the opening run to the end of the
  line (its newline included) is a prose offset, and the rewriter copies these characters.
  When the opening run of \<open>n\<close> backticks is followed by text whose runs are all shorter,
  and then by a run of \<open>m\<close> backticks with \<open>m\<close> at least \<open>n\<close> (equal or longer), the span
  ends behind that run: no offset of the span is a prose offset, and the rest of the line
  is scanned as prose again. In both cases the offsets behind the line are those of a fresh
  scan of the following lines: a span never passes the end of its line.
\<close>

theorem inline_span_confined_to_line:
  assumes "split_nl content = before @ line # after"
    and "fence_after None before = None" and "\<not> opens_fence line"
    and "p \<in> set (span_starts 0 line)"
  shows "(unterminated (drop p line) \<longrightarrow>
            (\<forall>x. line_offset before + p \<le> x \<and> x \<le> line_offset before + length line
               \<longrightarrow> x \<notin> prose_offset_set content) \<and>
            (\<forall>x < length content.
               line_offset before + p \<le> x \<and> x \<le> line_offset before + length line
               \<longrightarrow> fix_prose_quotes content skip ! x = content ! x)) \<and>
         (\<forall>n mid m rest.
            drop p line = replicate n BACKTICK @ mid @ replicate m BACKTICK @ rest \<and>
            0 < n \<and> n \<le> m \<and> mid \<noteq> [] \<and> hd mid \<noteq> BACKTICK \<and> last mid \<noteq> BACKTICK \<and>
            (\<forall>r \<in> set (backtick_runs 0 mid). r < n) \<and> (rest = [] \<or> hd rest \<noteq> BACKTICK) \<longrightarrow>
            (\<forall>x. line_offset before + p \<le> x \<and>
                  x < line_offset before + p + (n + length mid + m)
               \<longrightarrow> x \<notin> prose_offset_set content) \<and>
            (\<forall>q < length rest.
               line_offset before + p + (n + length mid + m) + q \<in> prose_offset_set content
               \<longleftrightarrow> q \<in> set (line_prose_from 0 rest))) \<and>
         (\<forall>x. x + (line_offset before + length line + 1) \<in> prose_offset_set content
            \<longleftrightarrow> x \<in> set (prose_lines None 0 after))"
proof -
  let ?start = "line_offset before"
  let ?A = "set (prose_lines None 0 before)"
  let ?B = "(\<lambda>q. ?start + q) ` set (line_prose_from 0 line)"
  let ?C = "(\<lambda>x. x + (?start + length line + 1)) ` set (prose_lines None 0 after)"
  have P: "prose_offset_set content = ?A \<union> ?B \<union> ?C"
    by (rule prose_offsets_around_line [OF assms(1-3)])
  have A: "x < ?start" if "x \<in> ?A" for x
    using prose_lines_bounds [OF that] by simp
  have B': "x < ?start + length line" if "x \<in> ?B" for x
    using that line_prose_from_bounds [of _ 0 line] by auto
  have C: "?start + length line < x" if "x \<in> ?C" for x
    using that by auto
  have pl: "p < length line" using span_starts_bounds [OF assms(4)] by simp
  have inB: "?start + q \<in> prose_offset_set content \<longleftrightarrow> q \<in> set (line_prose_from 0 line)"
    if "q < length line" for q
  proof
    assume "?start + q \<in> prose_offset_set content"
    then consider "?start + q \<in> ?A" | "?start + q \<in> ?B" | "?start + q \<in> ?C"
      unfolding P by blast
    then show "q \<in> set (line_prose_from 0 line)"
    proof cases
      case 1
      from A [OF this] show ?thesis by simp
    next
      case 2
      then show ?thesis by auto
    next
      case 3
      from C [OF this] that show ?thesis by simp
    qed
  next
    assume "q \<in> set (line_prose_from 0 line)"
    then show "?start + q \<in> prose_offset_set content" unfolding P by blast
  qed
  have skipped: "x \<notin> prose_offset_set content"
    if "?start + p \<le> x" and "x < ?start + p + span_length (drop p line)" for x
  proof
    assume m: "x \<in> prose_offset_set content"
    have le: "p + span_length (drop p line) \<le> length line"
      using span_length_le [of "drop p line"] pl by simp
    from that(1) obtain q where x: "x = ?start + q" and pq: "p \<le> q"
      by (metis add_diff_cancel_left' le_add1 le_add_diff_inverse le_trans nat_add_left_cancel_le)
    from that(2) x le have ql: "q < length line" and q2: "q < p + span_length (drop p line)"
      by simp_all
    from m inB [OF ql] x have "q \<in> set (line_prose_from 0 line)" by simp
    from span_offsets_skipped [OF assms(4) this] pq q2 show False by simp
  qed
  have one: "(\<forall>x. ?start + p \<le> x \<and> x \<le> ?start + length line
               \<longrightarrow> x \<notin> prose_offset_set content) \<and>
            (\<forall>x < length content.
               ?start + p \<le> x \<and> x \<le> ?start + length line
               \<longrightarrow> fix_prose_quotes content skip ! x = content ! x)"
    if u: "unterminated (drop p line)"
  proof -
    have sw: "\<forall>q \<in> set (line_prose_from 0 line). q < p"
      using swallowed_from_open [of p 0 line] assms(4) u by simp
    have np: "x \<notin> prose_offset_set content"
      if "?start + p \<le> x \<and> x \<le> ?start + length line" for x
    proof
      assume "x \<in> prose_offset_set content"
      then consider "x \<in> ?A" | "x \<in> ?B" | "x \<in> ?C" unfolding P by blast
      then show False
      proof cases
        case 1
        from A [OF this] that show False by simp
      next
        case 2
        with sw have "x < ?start + p" by auto
        with that show False by simp
      next
        case 3
        from C [OF this] that show False by simp
      qed
    qed
    have "fix_prose_quotes content skip ! x = content ! x"
      if "x < length content" and "?start + p \<le> x \<and> x \<le> ?start + length line" for x
      using fix_prose_quotes_nth [OF that(1), of skip] np [OF that(2)]
      by (simp add: is_rewritten_def)
    with np show ?thesis by blast
  qed
  have two: "(\<forall>x. ?start + p \<le> x \<and> x < ?start + p + (n + length mid + m)
               \<longrightarrow> x \<notin> prose_offset_set content) \<and>
            (\<forall>q < length rest.
               ?start + p + (n + length mid + m) + q \<in> prose_offset_set content
               \<longleftrightarrow> q \<in> set (line_prose_from 0 rest))"
    if h: "drop p line = replicate n BACKTICK @ mid @ replicate m BACKTICK @ rest \<and>
            0 < n \<and> n \<le> m \<and> mid \<noteq> [] \<and> hd mid \<noteq> BACKTICK \<and> last mid \<noteq> BACKTICK \<and>
            (\<forall>r \<in> set (backtick_runs 0 mid). r < n) \<and> (rest = [] \<or> hd rest \<noteq> BACKTICK)"
    for n mid m rest
  proof -
    let ?k = "n + length mid + m"
    from h have d: "drop p line = replicate n BACKTICK @ mid @ replicate m BACKTICK @ rest"
      by simp
    have as: "after_span (drop p line) = rest" and sl: "span_length (drop p line) = ?k"
      using after_span_closes [OF d] h by simp_all
    have len: "length line = p + ?k + length rest"
    proof -
      have "length (drop p line) = ?k + length rest" unfolding d by simp
      with pl show ?thesis by simp
    qed
    have res: "{q \<in> set (line_prose_from 0 line). p \<le> q}
        = (\<lambda>q. q + (p + ?k)) ` set (line_prose_from 0 rest)"
      using line_prose_from_resume [OF assms(4)] line_prose_from_shift [of 0 "p + ?k" rest]
      by (simp add: as sl)
    have a: "\<forall>x. ?start + p \<le> x \<and> x < ?start + p + ?k \<longrightarrow> x \<notin> prose_offset_set content"
      using skipped unfolding sl by blast
    have b: "?start + p + ?k + q \<in> prose_offset_set content
        \<longleftrightarrow> q \<in> set (line_prose_from 0 rest)" if "q < length rest" for q
    proof -
      have ql: "p + ?k + q < length line" using that len by simp
      have e: "?start + p + ?k + q = ?start + (p + ?k + q)" by simp
      have "?start + p + ?k + q \<in> prose_offset_set content
          \<longleftrightarrow> p + ?k + q \<in> set (line_prose_from 0 line)"
        unfolding e by (rule inB [OF ql])
      also have "\<dots> \<longleftrightarrow> p + ?k + q \<in> {q \<in> set (line_prose_from 0 line). p \<le> q}"
        by simp
      also have "\<dots> \<longleftrightarrow> q \<in> set (line_prose_from 0 rest)"
        unfolding res by auto
      finally show ?thesis .
    qed
    from a b show ?thesis by blast
  qed
  have three: "x + (?start + length line + 1) \<in> prose_offset_set content
      \<longleftrightarrow> x \<in> set (prose_lines None 0 after)" for x
  proof
    assume "x + (?start + length line + 1) \<in> prose_offset_set content"
    then consider "x + (?start + length line + 1) \<in> ?A" | "x + (?start + length line + 1) \<in> ?B"
      | "x + (?start + length line + 1) \<in> ?C" unfolding P by blast
    then show "x \<in> set (prose_lines None 0 after)"
    proof cases
      case 1
      from A [OF this] show ?thesis by simp
    next
      case 2
      from B' [OF this] show ?thesis by simp
    next
      case 3
      then show ?thesis by auto
    qed
  next
    assume "x \<in> set (prose_lines None 0 after)"
    then have "x + (?start + length line + 1) \<in> ?C" by blast
    then show "x + (?start + length line + 1) \<in> prose_offset_set content"
      unfolding P by blast
  qed
  from one two three show ?thesis by blast
qed

theorem inline_span_confined_to_line_witness:
  "split_nl (ustr ''a `b \"c\"'' @ [NEWLINE] @ ustr ''\"d\"'') = [] @ ustr ''a `b \"c\"'' # [ustr ''\"d\"''] \<and>
   fence_after None [] = None \<and> \<not> opens_fence (ustr ''a `b \"c\"'') \<and>
   2 \<in> set (span_starts 0 (ustr ''a `b \"c\"'')) \<and> unterminated (drop 2 (ustr ''a `b \"c\"'')) \<and>
   5 \<notin> prose_offset_set (ustr ''a `b \"c\"'' @ [NEWLINE] @ ustr ''\"d\"'') \<and>
   fix_prose_quotes (ustr ''a `b \"c\"'' @ [NEWLINE] @ ustr ''\"d\"'') False ! 5 = STRAIGHT_DOUBLE \<and>
   9 \<in> prose_offset_set (ustr ''a `b \"c\"'' @ [NEWLINE] @ ustr ''\"d\"'') \<and>
   split_nl (ustr ''`a`` \"x\"'') = [] @ ustr ''`a`` \"x\"'' # [] \<and>
   \<not> opens_fence (ustr ''`a`` \"x\"'') \<and> 0 \<in> set (span_starts 0 (ustr ''`a`` \"x\"'')) \<and>
   drop 0 (ustr ''`a`` \"x\"'')
     = replicate 1 BACKTICK @ ustr ''a'' @ replicate 2 BACKTICK @ ustr '' \"x\"'' \<and>
   2 \<notin> prose_offset_set (ustr ''`a`` \"x\"'') \<and>
   5 \<in> prose_offset_set (ustr ''`a`` \"x\"'')"
proof -
  let ?line = "ustr ''a `b \"c\"''"
  let ?c = "?line @ [NEWLINE] @ ustr ''\"d\"''"
  have h1: "split_nl ?c = [] @ ?line # [ustr ''\"d\"'']" by (simp add: ustr_def)
  have h2: "fence_after None [] = None" by simp
  have h3: "\<not> opens_fence ?line" by (simp add: scan_eval)
  have h4: "2 \<in> set (span_starts 0 ?line)" by (simp add: span_eval)
  have h5: "unterminated (drop 2 ?line)" by (simp add: span_eval)
  note t = inline_span_confined_to_line [OF h1 h2 h3 h4, of False]
  note tu = t [THEN conjunct1, THEN mp, OF h5]
  have lo: "line_offset [] = 0" by (simp add: line_offset_def)
  have len: "length ?line = 8" by (simp add: ustr_def)
  have a: "5 \<notin> prose_offset_set ?c"
    using tu [THEN conjunct1, rule_format, of 5] by (simp add: lo len)
  have b: "fix_prose_quotes ?c False ! 5 = ?c ! 5"
    using tu [THEN conjunct2, rule_format, of 5] by (simp add: lo len ustr_def)
  have "0 \<in> set (prose_lines None 0 [ustr ''\"d\"''])" by (simp add: scan_eval)
  then have c: "9 \<in> prose_offset_set ?c"
    using t [THEN conjunct2, THEN conjunct2, rule_format, of 0] by (simp add: lo len)
  have c5: "?c ! 5 = STRAIGHT_DOUBLE" by (simp add: ustr_def)
  let ?l2 = "ustr ''`a`` \"x\"''"
  let ?rest = "ustr '' \"x\"''"
  have g1: "split_nl ?l2 = [] @ ?l2 # []" by (simp add: ustr_def)
  have g3: "\<not> opens_fence ?l2" by (simp add: scan_eval)
  have g4: "0 \<in> set (span_starts 0 ?l2)" by (simp add: span_eval)
  have g5: "drop 0 ?l2 = replicate 1 BACKTICK @ ustr ''a'' @ replicate 2 BACKTICK @ ?rest"
    by (simp add: ustr_def numeral_2_eq_2)
  have g6: "drop 0 ?l2 = replicate 1 BACKTICK @ ustr ''a'' @ replicate 2 BACKTICK @ ?rest \<and>
      0 < (1::nat) \<and> (1::nat) \<le> 2 \<and> ustr ''a'' \<noteq> [] \<and> hd (ustr ''a'') \<noteq> BACKTICK \<and>
      last (ustr ''a'') \<noteq> BACKTICK \<and> (\<forall>r \<in> set (backtick_runs 0 (ustr ''a'')). r < 1) \<and>
      (?rest = [] \<or> hd ?rest \<noteq> BACKTICK)"
    by (simp add: ustr_def numeral_2_eq_2)
  note t2 = inline_span_confined_to_line [OF g1 h2 g3 g4, of False]
  note tc = t2 [THEN conjunct2, THEN conjunct1, THEN spec, THEN spec, THEN spec, THEN spec,
      THEN mp, OF g6]
  have d: "2 \<notin> prose_offset_set ?l2"
    using tc [THEN conjunct1, rule_format, of 2] by (simp add: lo ustr_def)
  have ar: "line_offset [] + 0 + (1 + length (ustr ''a'') + 2) + (1::nat) = 5"
    by (simp add: lo ustr_def)
  have q1: "1 < length ?rest" by (simp add: ustr_def)
  have "1 \<in> set (line_prose_from 0 ?rest)" by (simp add: ustr_def)
  then have e: "5 \<in> prose_offset_set ?l2"
    using tc [THEN conjunct2, rule_format, OF q1] unfolding ar by blast
  from h1 h2 h3 h4 h5 a b c c5 g1 g3 g4 g5 d e show ?thesis by (simp add: numeral_2_eq_2)
qed

text \<open>
  The claim as the spec states it fails on the code. After the unmatched backtick of
  \<open>a `b "c"\<close> the two quotes of that line are no prose offsets and stay straight, while
  the next line is rewritten. And a closing run may be longer than the opening one: in
  \<open>`a`` b ` "x"`\<close> the double run closes the first span, so the last two backticks form a
  span of their own and the quotes inside it stay straight.
\<close>

theorem unterminated_inline_span_counterexample:
  "5 \<notin> prose_offset_set (ustr ''a `b \"c\"'' @ [NEWLINE] @ ustr ''\"d\"'') \<and>
   7 \<notin> prose_offset_set (ustr ''a `b \"c\"'' @ [NEWLINE] @ ustr ''\"d\"'') \<and>
   fix_prose_quotes (ustr ''a `b \"c\"'' @ [NEWLINE] @ ustr ''\"d\"'') False
     = ustr ''a `b \"c\"'' @ [NEWLINE, FANCY_OPEN_DOUBLE, 100, FANCY_CLOSE_DOUBLE] \<and>
   prose_offset_list (ustr ''`a`` b ` \"x\"`'') = [4, 5, 6] \<and>
   fix_prose_quotes (ustr ''`a`` b ` \"x\"`'') False = ustr ''`a`` b ` \"x\"`''"
  by (simp add: fix_eval)

section \<open>Positions of the reported violations\<close>

text \<open>
  The convention the spec gives for a position, in its words: a 1-based line and a column
  that is 1 plus the zero-based offset of the character within its line. The line of an
  offset is counted by the newlines before it; the offset within the line is the number of
  characters between the last of these newlines and the offset.
\<close>

definition offset_in_line :: "ustring \<Rightarrow> nat \<Rightarrow> nat" where
  "offset_in_line s off = length (takeWhile (\<lambda>c. c \<noteq> NEWLINE) (rev (take off s)))"

definition position_1based :: "ustring \<Rightarrow> nat \<Rightarrow> int \<times> int" where
  "position_1based s off =
     (1 + int (count_list (take off s) NEWLINE), 1 + int (offset_in_line s off))"

lemma py_find_present:
  "c \<in> set xs \<Longrightarrow> py_find c xs = int (length (takeWhile (\<lambda>x. x \<noteq> c) xs))"
proof (induction xs)
  case Nil
  then show ?case by simp
next
  case (Cons x xs)
  show ?case
  proof (cases "x = c")
    case True
    then show ?thesis by simp
  next
    case False
    with Cons.prems have "c \<in> set xs" by simp
    from Cons.IH [OF this] False show ?thesis by (simp add: Let_def)
  qed
qed

lemma takeWhile_all: "c \<notin> set xs \<Longrightarrow> takeWhile (\<lambda>x. x \<noteq> c) xs = xs"
  by (induction xs) auto

lemma line_and_column_position:
  assumes "off \<le> length s"
  shows "line_and_column s off = position_1based s off"
proof (cases "NEWLINE \<in> set (take off s)")
  case True
  then have "NEWLINE \<in> set (rev (take off s))" by simp
  from py_find_present [OF this]
  have "py_rfind NEWLINE (take off s) = int off - 1 - int (offset_in_line s off)"
    using assms by (simp add: py_rfind_def offset_in_line_def Let_def min_def)
  with True show ?thesis
    by (simp add: line_and_column_def position_1based_def Let_def)
next
  case False
  then have "NEWLINE \<notin> set (rev (take off s))" by simp
  from takeWhile_all [OF this] have "offset_in_line s off = length (rev (take off s))"
    unfolding offset_in_line_def by (rule arg_cong)
  then have "offset_in_line s off = off"
    using assms by (simp add: min_def)
  with False show ?thesis
    by (simp add: line_and_column_def position_1based_def Let_def)
qed

lemma join_nl_Cons: "join_nl (l # ls) = (if ls = [] then l else l @ NEWLINE # join_nl ls)"
  by (cases ls) simp_all

lemma join_split_nl: "join_nl (split_nl s) = s"
proof (induction s)
  case Nil
  then show ?case by simp
next
  case (Cons c cs)
  obtain l ls where l: "split_nl cs = l # ls"
    using split_nl_not_Nil [of cs] by (cases "split_nl cs") auto
  show ?case
  proof (cases "c = NEWLINE")
    case True
    with Cons.IH l show ?thesis by (simp add: join_nl_Cons)
  next
    case False
    from Cons.IH l have "join_nl (l # ls) = cs" by simp
    then have "join_nl ((c # l) # ls) = c # cs" by (simp add: join_nl_Cons split: if_splits)
    with False l show ?thesis by simp
  qed
qed

lemma join_nl_nth_rest:
  assumes "ls \<noteq> []" and "pos + length line + 1 \<le> off"
  shows "join_nl (line # ls) ! (off - pos) = join_nl ls ! (off - (pos + length line + 1))"
proof -
  from assms(2) have i: "off - pos = length line + Suc (off - (pos + length line + 1))" by arith
  have j: "join_nl (line # ls) = line @ NEWLINE # join_nl ls"
    using assms(1) by (simp add: join_nl_Cons)
  show ?thesis unfolding i j by (simp only: nth_append_length_plus nth_Cons_Suc)
qed

lemma fancy_lines_bounds:
  "(off, ch) \<in> set (fancy_lines st pos ls) \<Longrightarrow>
   pos \<le> off \<and> off < pos + length (join_nl ls) \<and> join_nl ls ! (off - pos) = ch"
proof (induction st pos ls rule: fancy_lines.induct)
  case (1 st pos)
  then show ?case by simp
next
  case (2 pos line ls)
  let ?st = "if opens_fence line then Some (fence_marker line) else None"
  from "2.prems" have m: "(off, ch) \<in> set (fancy_lines ?st (pos + length line + 1) ls)" by simp
  then have ne: "ls \<noteq> []" by auto
  from "2.IH" [OF m]
  have a: "pos + length line + 1 \<le> off" and b: "off < pos + length line + 1 + length (join_nl ls)"
    and c: "join_nl ls ! (off - (pos + length line + 1)) = ch" by simp_all
  have "join_nl (line # ls) ! (off - pos) = ch"
    using join_nl_nth_rest [OF ne a] c by simp
  with a b ne show ?case by (simp add: join_nl_Cons)
next
  case (3 fence pos line ls)
  have rest: "pos \<le> off \<and> off < pos + length (join_nl (line # ls))
      \<and> join_nl (line # ls) ! (off - pos) = ch"
    if m: "(off, ch) \<in> set (fancy_lines st' (pos + length line + 1) ls)"
      and ih: "pos + length line + 1 \<le> off \<and> off < pos + length line + 1 + length (join_nl ls)
        \<and> join_nl ls ! (off - (pos + length line + 1)) = ch" for st'
  proof -
    from m have ne: "ls \<noteq> []" by auto
    from ih have a: "pos + length line + 1 \<le> off" by simp
    have "join_nl (line # ls) ! (off - pos) = ch"
      using join_nl_nth_rest [OF ne a] ih by simp
    with ih ne show ?thesis by (simp add: join_nl_Cons)
  qed
  show ?case
  proof (cases "closes_fence fence line")
    case True
    with "3.prems" have m: "(off, ch) \<in> set (fancy_lines None (pos + length line + 1) ls)" by simp
    from rest [OF m "3.IH"(1) [OF True m]] show ?thesis .
  next
    case False
    with "3.prems" have "(off, ch) \<in> (\<lambda>(j, c). (pos + j, c)) `
          set (filter (\<lambda>(j, c). is_fancy c) (zip [0..<length line] line))
        \<or> (off, ch) \<in> set (fancy_lines (Some fence) (pos + length line + 1) ls)"
      by auto
    then show ?thesis
    proof
      assume "(off, ch) \<in> (\<lambda>(j, c). (pos + j, c)) `
          set (filter (\<lambda>(j, c). is_fancy c) (zip [0..<length line] line))"
      then obtain j where j: "(j, ch) \<in> set (zip [0..<length line] line)" and o: "off = pos + j"
        by auto
      from j have "j < length line \<and> line ! j = ch"
        by (auto simp: set_zip)
      with o show ?thesis by (simp add: join_nl_Cons nth_append)
    next
      assume m: "(off, ch) \<in> set (fancy_lines (Some fence) (pos + length line + 1) ls)"
      from rest [OF m "3.IH"(2) [OF False m]] show ?thesis .
    qed
  qed
qed

lemma find_fancy_in_code_valid:
  assumes "(off, ch) \<in> set (find_fancy_in_code content)"
  shows "off < length content \<and> content ! off = ch"
  using fancy_lines_bounds [OF assms [unfolded find_fancy_in_code_def]]
  by (simp add: join_split_nl)

lemma find_straight_valid:
  assumes "(off, ch) \<in> set (find_straight_quotes_in_prose prose)"
  shows "off < length prose \<and> prose ! off = ch"
proof -
  from assms have "(off, ch) \<in> set (iter_from 0 prose)"
    by (simp add: find_straight_quotes_in_prose_def iter_prose_offsets_def)
  from iter_from_bounds [OF this] show ?thesis by simp
qed

text \<open>
  C8. Every violation that \<open>audit_file\<close> reports, of either kind, carries the position of
  an offset of the scanned text (the prose view for straight quotes, the original content
  for fancy glyphs) that holds the reported character, as a 1-based line and a column equal
  to 1 plus the offset of the character within its line. Both lists use this one
  convention.
\<close>

theorem violation_positions_one_based:
  "straight_in_prose (audit_content content)
     = map (\<lambda>(off, ch). (position_1based (get_prose_content content) off, ch))
         (find_straight_quotes_in_prose (get_prose_content content)) \<and>
   (\<forall>(off, ch) \<in> set (find_straight_quotes_in_prose (get_prose_content content)).
      off < length (get_prose_content content) \<and> get_prose_content content ! off = ch) \<and>
   fancy_in_code (audit_content content)
     = map (\<lambda>(off, ch). (position_1based content off, ch)) (find_fancy_in_code content) \<and>
   (\<forall>(off, ch) \<in> set (find_fancy_in_code content).
      off < length content \<and> content ! off = ch)"
proof (intro conjI)
  let ?prose = "get_prose_content content"
  show "straight_in_prose (audit_content content)
     = map (\<lambda>(off, ch). (position_1based ?prose off, ch)) (find_straight_quotes_in_prose ?prose)"
    unfolding audit_content_def Let_def
    using find_straight_valid [of _ _ ?prose] line_and_column_position [of _ ?prose]
    by (auto simp: less_imp_le)
  show "\<forall>(off, ch) \<in> set (find_straight_quotes_in_prose ?prose).
      off < length ?prose \<and> ?prose ! off = ch"
    using find_straight_valid by blast
  show "fancy_in_code (audit_content content)
     = map (\<lambda>(off, ch). (position_1based content off, ch)) (find_fancy_in_code content)"
    unfolding audit_content_def Let_def
    using find_fancy_in_code_valid [of _ _ content] line_and_column_position [of _ content]
    by (auto simp: less_imp_le)
  show "\<forall>(off, ch) \<in> set (find_fancy_in_code content).
      off < length content \<and> content ! off = ch"
    using find_fancy_in_code_valid by blast
qed

lemmas audit_eval =
  scan_eval get_prose_content_def find_straight_quotes_in_prose_def iter_prose_offsets_def
  find_fancy_in_code_def is_fancy_def position_1based_def offset_in_line_def

theorem violation_positions_one_based_witness:
  "(1, STRAIGHT_DOUBLE) \<in> set (find_straight_quotes_in_prose (get_prose_content
       (ustr ''a\"'' @ [NEWLINE] @ ustr ''```'' @ [NEWLINE] @ ustr ''xy'' @ [FANCY_APOSTROPHE, NEWLINE]
        @ ustr ''```'' @ [NEWLINE] @ ustr ''ab' ''))) \<and>
   (9, FANCY_APOSTROPHE) \<in> set (find_fancy_in_code
       (ustr ''a\"'' @ [NEWLINE] @ ustr ''```'' @ [NEWLINE] @ ustr ''xy'' @ [FANCY_APOSTROPHE, NEWLINE]
        @ ustr ''```'' @ [NEWLINE] @ ustr ''ab' '')) \<and>
   straight_in_prose (audit_content
       (ustr ''a\"'' @ [NEWLINE] @ ustr ''```'' @ [NEWLINE] @ ustr ''xy'' @ [FANCY_APOSTROPHE, NEWLINE]
        @ ustr ''```'' @ [NEWLINE] @ ustr ''ab' ''))
     = [((1, 2), STRAIGHT_DOUBLE), ((5, 3), STRAIGHT_APOSTROPHE)] \<and>
   fancy_in_code (audit_content
       (ustr ''a\"'' @ [NEWLINE] @ ustr ''```'' @ [NEWLINE] @ ustr ''xy'' @ [FANCY_APOSTROPHE, NEWLINE]
        @ ustr ''```'' @ [NEWLINE] @ ustr ''ab' ''))
     = [((3, 3), FANCY_APOSTROPHE)]"
proof -
  let ?c = "ustr ''a\"'' @ [NEWLINE] @ ustr ''```'' @ [NEWLINE] @ ustr ''xy'' @ [FANCY_APOSTROPHE, NEWLINE]
        @ ustr ''```'' @ [NEWLINE] @ ustr ''ab' ''"
  let ?v = "ustr ''a\"'' @ [NEWLINE, NEWLINE, NEWLINE, NEWLINE] @ ustr ''ab' ''"
  have pv: "get_prose_content ?c = ?v" by (simp add: audit_eval)
  have fs: "find_straight_quotes_in_prose ?v = [(1, STRAIGHT_DOUBLE), (8, STRAIGHT_APOSTROPHE)]"
    by (simp add: audit_eval)
  have ff: "find_fancy_in_code ?c = [(9, FANCY_APOSTROPHE)]" by (simp add: audit_eval)
  note t = violation_positions_one_based [of ?c]
  have a: "straight_in_prose (audit_content ?c)
      = [((1, 2), STRAIGHT_DOUBLE), ((5, 3), STRAIGHT_APOSTROPHE)]"
    using t [THEN conjunct1] unfolding pv fs by (simp add: audit_eval)
  have b: "fancy_in_code (audit_content ?c) = [((3, 3), FANCY_APOSTROPHE)]"
    using t [THEN conjunct2, THEN conjunct2, THEN conjunct1] unfolding ff by (simp add: audit_eval)
  show ?thesis unfolding pv fs ff a b by simp
qed

section \<open>Frame of the rewriter\<close>

lemma line_prose_from_char:
  assumes "q \<in> set (line_prose_from i s)"
  shows "i \<le> q \<and> q < i + length s \<and> s ! (q - i) \<noteq> BACKTICK"
proof -
  from assms have "q \<in> fst ` set (iter_from i s)"
    by (simp only: iter_from_fst [symmetric] set_map)
  then obtain ch where m: "(q, ch) \<in> set (iter_from i s)" by auto
  from iter_from_bounds [OF m] iter_from_no_backtick [OF m] show ?thesis by simp
qed

lemma split_nl_no_newline: "l \<in> set (split_nl s) \<Longrightarrow> NEWLINE \<notin> set l"
proof (induction s arbitrary: l)
  case Nil
  then show ?case by simp
next
  case (Cons c cs)
  obtain m ms where m: "split_nl cs = m # ms"
    using split_nl_not_Nil [of cs] by (cases "split_nl cs") auto
  show ?case
  proof (cases "c = NEWLINE")
    case True
    with Cons.prems have "l = [] \<or> l \<in> set (split_nl cs)" by simp
    with Cons.IH show ?thesis by auto
  next
    case False
    with Cons.prems m have "l = c # m \<or> l \<in> set ms" by simp
    then show ?thesis
    proof
      assume "l = c # m"
      moreover have "NEWLINE \<notin> set m" using Cons.IH [of m] m by simp
      ultimately show ?thesis using False by simp
    next
      assume "l \<in> set ms"
      then show ?thesis using Cons.IH [of l] m by simp
    qed
  qed
qed

lemma prose_lines_char:
  "x \<in> set (prose_lines st pos ls) \<Longrightarrow> \<forall>l \<in> set ls. NEWLINE \<notin> set l \<Longrightarrow>
   pos \<le> x \<and> x < pos + length (join_nl ls) \<and>
   join_nl ls ! (x - pos) \<noteq> BACKTICK \<and> join_nl ls ! (x - pos) \<noteq> NEWLINE"
proof (induction st pos ls rule: prose_lines.induct)
  case (1 st pos)
  then show ?case by simp
next
  case (2 pos line ls)
  have rest: "pos \<le> x \<and> x < pos + length (join_nl (line # ls)) \<and>
      join_nl (line # ls) ! (x - pos) \<noteq> BACKTICK \<and> join_nl (line # ls) ! (x - pos) \<noteq> NEWLINE"
    if m: "x \<in> set (prose_lines st' (pos + length line + 1) ls)"
      and ih: "pos + length line + 1 \<le> x \<and> x < pos + length line + 1 + length (join_nl ls) \<and>
        join_nl ls ! (x - (pos + length line + 1)) \<noteq> BACKTICK \<and>
        join_nl ls ! (x - (pos + length line + 1)) \<noteq> NEWLINE" for st'
  proof -
    from m have ne: "ls \<noteq> []" by auto
    from ih have a: "pos + length line + 1 \<le> x" by simp
    from join_nl_nth_rest [OF ne a] ih ne show ?thesis by (simp add: join_nl_Cons)
  qed
  from "2.prems"(2) have nl: "\<forall>l \<in> set ls. NEWLINE \<notin> set l" and nl0: "NEWLINE \<notin> set line"
    by simp_all
  show ?case
  proof (cases "opens_fence line")
    case True
    with "2.prems"(1) have m: "x \<in> set (prose_lines (Some (fence_marker line)) (pos + length line + 1) ls)"
      by simp
    from rest [OF m "2.IH"(1) [OF True m nl]] show ?thesis .
  next
    case False
    with "2.prems"(1) have "x \<in> (\<lambda>i. pos + i) ` set (line_prose_from 0 line)
        \<or> x \<in> set (prose_lines None (pos + length line + 1) ls)"
      by auto
    then show ?thesis
    proof
      assume "x \<in> (\<lambda>i. pos + i) ` set (line_prose_from 0 line)"
      then obtain q where q: "q \<in> set (line_prose_from 0 line)" and x: "x = pos + q" by auto
      from line_prose_from_char [OF q] have ql: "q < length line" and qb: "line ! q \<noteq> BACKTICK"
        by simp_all
      from ql nl0 have qn: "line ! q \<noteq> NEWLINE" by (metis nth_mem)
      have "join_nl (line # ls) ! q = line ! q"
        using ql by (simp add: join_nl_Cons nth_append)
      with x ql qb qn show ?thesis by (simp add: join_nl_Cons)
    next
      assume m: "x \<in> set (prose_lines None (pos + length line + 1) ls)"
      from rest [OF m "2.IH"(2) [OF False m nl]] show ?thesis .
    qed
  qed
next
  case (3 fence pos line ls)
  let ?st = "if closes_fence fence line then None else Some fence"
  from "3.prems"(1) have m: "x \<in> set (prose_lines ?st (pos + length line + 1) ls)" by simp
  then have ne: "ls \<noteq> []" by auto
  from "3.prems"(2) have nl: "\<forall>l \<in> set ls. NEWLINE \<notin> set l" by simp
  from "3.IH" [OF m nl]
  have ih: "pos + length line + 1 \<le> x \<and> x < pos + length line + 1 + length (join_nl ls) \<and>
        join_nl ls ! (x - (pos + length line + 1)) \<noteq> BACKTICK \<and>
        join_nl ls ! (x - (pos + length line + 1)) \<noteq> NEWLINE" .
  then have a: "pos + length line + 1 \<le> x" by simp
  from join_nl_nth_rest [OF ne a] ih ne show ?case by (simp add: join_nl_Cons)
qed

lemma prose_offset_char:
  assumes "i \<in> prose_offset_set content"
  shows "i < length content \<and> content ! i \<noteq> BACKTICK \<and> content ! i \<noteq> NEWLINE"
proof -
  from assms have m: "i \<in> set (prose_lines None 0 (split_nl content))"
    by (simp add: prose_offset_set_def prose_offset_list_def)
  have "\<forall>l \<in> set (split_nl content). NEWLINE \<notin> set l"
    using split_nl_no_newline by blast
  from prose_lines_char [OF m this] show ?thesis by (simp add: join_split_nl)
qed

lemma fenced_line_not_prose:
  assumes "split_nl content = before @ line # after"
    and "fence_after None before \<noteq> None \<or> opens_fence line"
    and "line_offset before \<le> x" and "x \<le> line_offset before + length line"
  shows "x \<notin> prose_offset_set content"
proof
  let ?start = "line_offset before"
  let ?st = "fence_after None before"
  assume "x \<in> prose_offset_set content"
  then have "x \<in> set (prose_lines None 0 before)
      \<or> x \<in> set (prose_lines ?st ?start (line # after))"
    unfolding prose_offset_set_def prose_offset_list_def assms(1) prose_lines_append by simp
  then show False
  proof
    assume "x \<in> set (prose_lines None 0 before)"
    from prose_lines_bounds [OF this] assms(3) show False by simp
  next
    assume m: "x \<in> set (prose_lines ?st ?start (line # after))"
    have "\<exists>st'. x \<in> set (prose_lines st' (?start + length line + 1) after)"
    proof (cases ?st)
      case None
      with assms(2) have "opens_fence line" by simp
      with m None show ?thesis by auto
    next
      case (Some fence)
      with m show ?thesis by auto
    qed
    then obtain st' where "x \<in> set (prose_lines st' (?start + length line + 1) after)" ..
    from prose_lines_bounds [OF this] assms(4) show False by simp
  qed
qed

lemma inline_span_not_prose:
  assumes "split_nl content = before @ line # after"
    and "fence_after None before = None" and "\<not> opens_fence line"
    and "p \<in> set (span_starts 0 line)"
    and "line_offset before + p \<le> x"
    and "x < line_offset before + p + span_length (drop p line)"
  shows "x \<notin> prose_offset_set content"
proof
  let ?start = "line_offset before"
  assume m: "x \<in> prose_offset_set content"
  have pl: "p < length line" using span_starts_bounds [OF assms(4)] by simp
  have le: "p + span_length (drop p line) \<le> length line"
    using span_length_le [of "drop p line"] pl by simp
  from m consider "x \<in> set (prose_lines None 0 before)"
    | "x \<in> (\<lambda>q. ?start + q) ` set (line_prose_from 0 line)"
    | "x \<in> (\<lambda>x. x + (?start + length line + 1)) ` set (prose_lines None 0 after)"
    unfolding prose_offsets_around_line [OF assms(1-3)] by blast
  then show False
  proof cases
    case 1
    from prose_lines_bounds [OF this] assms(5) show False by simp
  next
    case 2
    then obtain q where q: "q \<in> set (line_prose_from 0 line)" and x: "x = ?start + q" by auto
    from span_offsets_skipped [OF assms(4) q] x assms(5,6) show False by simp
  next
    case 3
    then have "?start + length line < x" by auto
    with assms(6) le show False by simp
  qed
qed

text \<open>A document with a fenced block, prose quotes and an inline span.\<close>

definition fenced_example :: ustring where
  "fenced_example =
     ustr ''```'' @ [NEWLINE] @ ustr ''\"hi\"'' @ [NEWLINE] @ ustr ''```'' @ [NEWLINE]
     @ ustr ''\"a\" `\"b\"`''"

lemma fenced_example_lines:
  "split_nl fenced_example = [ustr ''```'', ustr ''\"hi\"'', ustr ''```'', ustr ''\"a\" `\"b\"`'']"
  by (simp add: fenced_example_def ustr_def)

lemma fenced_example_fixed:
  "fix_prose_quotes fenced_example False =
     ustr ''```'' @ [NEWLINE] @ ustr ''\"hi\"'' @ [NEWLINE] @ ustr ''```'' @ [NEWLINE]
     @ [FANCY_OPEN_DOUBLE, 97, FANCY_CLOSE_DOUBLE, 32] @ ustr ''`\"b\"`''"
  by (simp add: fenced_example_def fix_eval)

text \<open>
  C3. The output of \<open>fix_prose_quotes\<close> agrees with the input at every offset that does not
  hold a straight double quote or straight apostrophe at a prose offset. So every
  character outside \<open>prose_offset_set\<close> is copied as it is, and these are outside it: every
  offset of a line read while a fence is open (the fenced lines and the closing marker
  line) and of a line that opens a fence, with the newline that ends the line; every offset
  of an inline span, from its opening run to the end of its closing run; and every newline
  and backtick.
\<close>

theorem fix_prose_quotes_frame:
  "length (fix_prose_quotes content skip) = length content \<and>
   (\<forall>i < length content.
      \<not> (i \<in> prose_offset_set content \<and>
         (content ! i = STRAIGHT_DOUBLE \<or> content ! i = STRAIGHT_APOSTROPHE))
      \<longrightarrow> fix_prose_quotes content skip ! i = content ! i) \<and>
   (\<forall>i < length content.
      i \<notin> prose_offset_set content \<longrightarrow> fix_prose_quotes content skip ! i = content ! i) \<and>
   (\<forall>i \<in> prose_offset_set content.
      i < length content \<and> content ! i \<noteq> NEWLINE \<and> content ! i \<noteq> BACKTICK) \<and>
   (\<forall>before line after x.
      split_nl content = before @ line # after \<and>
      (fence_after None before \<noteq> None \<or> opens_fence line) \<and>
      line_offset before \<le> x \<and> x \<le> line_offset before + length line \<longrightarrow>
      x \<notin> prose_offset_set content \<and>
      (x < length content \<longrightarrow> fix_prose_quotes content skip ! x = content ! x)) \<and>
   (\<forall>before line after p x.
      split_nl content = before @ line # after \<and>
      fence_after None before = None \<and> \<not> opens_fence line \<and>
      p \<in> set (span_starts 0 line) \<and>
      line_offset before + p \<le> x \<and> x < line_offset before + p + span_length (drop p line) \<longrightarrow>
      x \<notin> prose_offset_set content \<and>
      (x < length content \<longrightarrow> fix_prose_quotes content skip ! x = content ! x))"
proof -
  have cp: "fix_prose_quotes content skip ! i = content ! i"
    if "i < length content"
      and "\<not> (i \<in> prose_offset_set content \<and>
         (content ! i = STRAIGHT_DOUBLE \<or> content ! i = STRAIGHT_APOSTROPHE))" for i
    using fix_prose_quotes_nth [OF that(1), of skip] that(2)
    by (auto simp: is_rewritten_def split: if_splits)
  have first: "length (fix_prose_quotes content skip) = length content \<and>
   (\<forall>i < length content.
      \<not> (i \<in> prose_offset_set content \<and>
         (content ! i = STRAIGHT_DOUBLE \<or> content ! i = STRAIGHT_APOSTROPHE))
      \<longrightarrow> fix_prose_quotes content skip ! i = content ! i) \<and>
   (\<forall>i < length content.
      i \<notin> prose_offset_set content \<longrightarrow> fix_prose_quotes content skip ! i = content ! i) \<and>
   (\<forall>i \<in> prose_offset_set content.
      i < length content \<and> content ! i \<noteq> NEWLINE \<and> content ! i \<noteq> BACKTICK)"
    using cp length_fix_prose_quotes [of content skip] prose_offset_char [of _ content] by blast
  have fenced: "x \<notin> prose_offset_set content \<and>
      (x < length content \<longrightarrow> fix_prose_quotes content skip ! x = content ! x)"
    if "split_nl content = before @ line # after \<and>
      (fence_after None before \<noteq> None \<or> opens_fence line) \<and>
      line_offset before \<le> x \<and> x \<le> line_offset before + length line"
    for before line after x
  proof -
    from that have "x \<notin> prose_offset_set content"
      using fenced_line_not_prose [of content before line after x] by blast
    with cp [of x] show ?thesis by blast
  qed
  have span: "x \<notin> prose_offset_set content \<and>
      (x < length content \<longrightarrow> fix_prose_quotes content skip ! x = content ! x)"
    if "split_nl content = before @ line # after \<and>
      fence_after None before = None \<and> \<not> opens_fence line \<and>
      p \<in> set (span_starts 0 line) \<and>
      line_offset before + p \<le> x \<and> x < line_offset before + p + span_length (drop p line)"
    for before line after p x
  proof -
    from that have "x \<notin> prose_offset_set content"
      using inline_span_not_prose [of content before line after p x] by blast
    with cp [of x] show ?thesis by blast
  qed
  from first fenced span show ?thesis by blast
qed

theorem fix_prose_quotes_frame_witness:
  "1 \<notin> prose_offset_set fenced_example \<and>
   4 \<notin> prose_offset_set fenced_example \<and>
   fenced_example ! 4 = STRAIGHT_DOUBLE \<and>
   fix_prose_quotes fenced_example False ! 4 = STRAIGHT_DOUBLE \<and>
   10 \<notin> prose_offset_set fenced_example \<and>
   18 \<notin> prose_offset_set fenced_example \<and>
   fenced_example ! 18 = STRAIGHT_DOUBLE \<and>
   fix_prose_quotes fenced_example False ! 18 = STRAIGHT_DOUBLE \<and>
   fenced_example ! 13 = STRAIGHT_DOUBLE \<and>
   fix_prose_quotes fenced_example False ! 13 = FANCY_OPEN_DOUBLE"
proof -
  let ?l0 = "ustr ''```''" and ?l1 = "ustr ''\"hi\"''" and ?l3 = "ustr ''\"a\" `\"b\"`''"
  note t = fix_prose_quotes_frame [of fenced_example False]
  note fenced = t [THEN conjunct2, THEN conjunct2, THEN conjunct2, THEN conjunct2, THEN conjunct1,
      rule_format]
  note span = t [THEN conjunct2, THEN conjunct2, THEN conjunct2, THEN conjunct2, THEN conjunct2,
      rule_format]
  have len: "length fenced_example = 22" by (simp add: fenced_example_def ustr_def)
  have s0: "split_nl fenced_example = [] @ ?l0 # [?l1, ?l0, ?l3]"
    by (simp add: fenced_example_lines)
  have s1: "split_nl fenced_example = [?l0] @ ?l1 # [?l0, ?l3]"
    by (simp add: fenced_example_lines)
  have s2: "split_nl fenced_example = [?l0, ?l1] @ ?l0 # [?l3]"
    by (simp add: fenced_example_lines)
  have s3: "split_nl fenced_example = [?l0, ?l1, ?l0] @ ?l3 # []"
    by (simp add: fenced_example_lines)
  have o: "opens_fence ?l0" by (simp add: scan_eval)
  have f1: "fence_after None [?l0] \<noteq> None" by (simp add: scan_eval)
  have f2: "fence_after None [?l0, ?l1] \<noteq> None" by (simp add: scan_eval)
  have f3: "fence_after None [?l0, ?l1, ?l0] = None" by (simp add: scan_eval)
  have n3: "\<not> opens_fence ?l3" by (simp add: scan_eval)
  have p3: "4 \<in> set (span_starts 0 ?l3)" by (simp add: span_eval)
  have sl: "span_length (drop 4 ?l3) = 5" by (simp add: span_length_def span_eval)
  have lo0: "line_offset [] = 0" and lo1: "line_offset [?l0] = 4"
    and lo2: "line_offset [?l0, ?l1] = 9" and lo3: "line_offset [?l0, ?l1, ?l0] = 13"
    by (simp_all add: line_offset_def ustr_def)
  have a: "1 \<notin> prose_offset_set fenced_example"
    using fenced [of "[]" ?l0 "[?l1, ?l0, ?l3]" 1] s0 o lo0 by (simp add: ustr_def)
  have b: "4 \<notin> prose_offset_set fenced_example
      \<and> fix_prose_quotes fenced_example False ! 4 = fenced_example ! 4"
    using fenced [of "[?l0]" ?l1 "[?l0, ?l3]" 4] s1 f1 lo1 len by (simp add: ustr_def)
  have c: "10 \<notin> prose_offset_set fenced_example"
    using fenced [of "[?l0, ?l1]" ?l0 "[?l3]" 10] s2 f2 lo2 by (simp add: ustr_def)
  have d: "18 \<notin> prose_offset_set fenced_example
      \<and> fix_prose_quotes fenced_example False ! 18 = fenced_example ! 18"
    using span [of "[?l0, ?l1, ?l0]" ?l3 "[]" 4 18] s3 f3 n3 p3 lo3 sl len by simp
  have e4: "fenced_example ! 4 = STRAIGHT_DOUBLE" and e18: "fenced_example ! 18 = STRAIGHT_DOUBLE"
    and e13: "fenced_example ! 13 = STRAIGHT_DOUBLE"
    by (simp_all add: fenced_example_def ustr_def)
  have g: "fix_prose_quotes fenced_example False ! 13 = FANCY_OPEN_DOUBLE"
    unfolding fenced_example_fixed by (simp add: ustr_def)
  from a b c d e4 e18 e13 g show ?thesis by simp
qed

section \<open>The Avoid-line exemption on bold markers\<close>

text \<open>
  C4. With the exemption on, the line \<open>- Avoid: using "foo" here\<close> keeps its straight
  quotes, and with the exemption off they become fancy glyphs. But a line whose word
  \<open>Avoid\<close> carries the Markdown bold marker \<open>**\<close>, the form the comment at line 182 of
  the source names, is not recognised: the pattern allows one star on each side only, so
  the quotes of \<open>**Avoid**: use "foo"\<close> and of \<open>**Avoid:** use "foo"\<close> are rewritten with
  the exemption on.
\<close>

theorem bold_avoid_line_is_rewritten:
  "\<not> is_avoid_line (ustr ''**Avoid**: use \"foo\"'') \<and>
   fix_prose_quotes (ustr ''**Avoid**: use \"foo\"'') True
     = ustr ''**Avoid**: use '' @ [FANCY_OPEN_DOUBLE] @ ustr ''foo'' @ [FANCY_CLOSE_DOUBLE] \<and>
   \<not> is_avoid_line (ustr ''**Avoid:** use \"foo\"'') \<and>
   fix_prose_quotes (ustr ''**Avoid:** use \"foo\"'') True
     = ustr ''**Avoid:** use '' @ [FANCY_OPEN_DOUBLE] @ ustr ''foo'' @ [FANCY_CLOSE_DOUBLE] \<and>
   is_avoid_line (ustr ''*Avoid*: use \"foo\"'') \<and>
   fix_prose_quotes (ustr ''- Avoid: using \"foo\" here'') True
     = ustr ''- Avoid: using \"foo\" here'' \<and>
   fix_prose_quotes (ustr ''- Avoid: using \"foo\" here'') False
     = ustr ''- Avoid: using '' @ [FANCY_OPEN_DOUBLE] @ ustr ''foo'' @ [FANCY_CLOSE_DOUBLE]
       @ ustr '' here''"
  by (simp add: fix_eval)

section \<open>The version-bump utility\<close>

text \<open>
  bump_plugin_version.py. A JSON value as \<open>json.loads\<close> returns it; an object is the list
  of its members in order, with distinct keys (floats are left out: the utility never
  looks at a number).
\<close>

datatype json =
    JNull
  | JBool bool
  | JNum int
  | JStr ustring
  | JArr "json list"
  | JObj "(ustring \<times> json) list"

text \<open>
  Paths as \<open>pathlib\<close> has them on POSIX: an anchor (empty for a relative path, \<open>/\<close>, or
  \<open>//\<close> for exactly two leading slashes) and the components, without empty ones and
  without single dots. \<open>split_on\<close> is \<open>s.split(sep)\<close> for a one-character separator.
\<close>

type_synonym path = "ustring \<times> ustring list"

fun split_on :: "uchar \<Rightarrow> ustring \<Rightarrow> ustring list" where
  "split_on sep [] = [[]]"
| "split_on sep (c # cs) =
     (if c = sep then [] # split_on sep cs
      else (case split_on sep cs of
              [] \<Rightarrow> [[c]]
            | part # ps \<Rightarrow> (c # part) # ps))"

definition path_anchor :: "ustring \<Rightarrow> ustring" where
  "path_anchor s =
     (if take 2 s = ustr ''//'' \<and> take 3 s \<noteq> ustr ''///'' then ustr ''//''
      else if take 1 s = ustr ''/'' then ustr ''/''
      else [])"

definition path_of :: "ustring \<Rightarrow> path" where
  "path_of s = (path_anchor s, filter (\<lambda>p. p \<noteq> [] \<and> p \<noteq> ustr ''.'') (split_on 47 s))"

text \<open>
  \<open>p / segment\<close>: a segment that starts with a slash replaces what stands before it.
  \<open>p.relative_to(other)\<close> compares the paths component by component and raises
  \<open>ValueError\<close>, here \<open>None\<close>, when \<open>other\<close> is no prefix of \<open>p\<close>.
\<close>

definition pjoin :: "path \<Rightarrow> ustring \<Rightarrow> path" where
  "pjoin p segment =
     (if take 1 segment = ustr ''/'' then path_of segment
      else (fst p, snd p @ snd (path_of segment)))"

definition relative_to :: "path \<Rightarrow> path \<Rightarrow> ustring list option" where
  "relative_to p other =
     (if fst p = fst other \<and> take (length (snd other)) (snd p) = snd other
      then Some (drop (length (snd other)) (snd p))
      else None)"

text \<open>
  The files the utility can see. A file holds \<open>Some v\<close> when its text parses to \<open>v\<close>, and
  \<open>None\<close> when \<open>json.loads(read_text(...))\<close> raises on it. Writing
  \<open>json.dumps(v, indent=2) + "\n"\<close> leaves a file that parses to \<open>v\<close>; writes are taken
  to succeed. The two manifests are different files (their names differ), so writing one
  leaves the other as it was.
\<close>

type_synonym files = "path \<rightharpoonup> json option"

datatype message =
    Usage
  | Example
  | Not_found path
  | Updated_plugin "ustring list" json ustring
  | Updated_marketplace ustring json ustring
  | Warning_no_plugin ustring

text \<open>How the process ends: \<open>sys.exit(main())\<close> with the value returned, or an uncaught
  exception, which makes the interpreter exit with status 1.\<close>

datatype outcome = Returned int | Raised

fun exit_status :: "outcome \<Rightarrow> int" where
  "exit_status (Returned n) = n"
| "exit_status Raised = 1"

record run =
  result :: outcome
  stderr :: "message list"
  stdout :: "message list"
  files_after :: files

text \<open>\<open>d.get(key, default)\<close> and \<open>d[key] = v\<close> on the members of an object.\<close>

definition obj_get :: "(ustring \<times> json) list \<Rightarrow> ustring \<Rightarrow> json \<Rightarrow> json" where
  "obj_get kvs key dflt = (case map_of kvs key of None \<Rightarrow> dflt | Some v \<Rightarrow> v)"

fun obj_set :: "(ustring \<times> json) list \<Rightarrow> ustring \<Rightarrow> json \<Rightarrow> (ustring \<times> json) list" where
  "obj_set [] key v = [(key, v)]"
| "obj_set ((k, w) # kvs) key v =
     (if k = key then (k, v) # kvs else (k, w) # obj_set kvs key v)"

text \<open>
  The loop of lines 42-49 over a list of entries. An entry that is no object has no
  \<open>get\<close>, so \<open>p.get("name")\<close> raises. \<open>p.get("name")\<close> without a default is \<open>None\<close> for a
  missing key, modelled by \<open>JNull\<close>; it equals \<open>name\<close> only when it is that string. The
  entry is changed in place, so the list inside \<open>data\<close> changes with it.
\<close>

datatype loop_result = Found "json list" json | Absent | Loop_raised

fun bump_loop :: "ustring \<Rightarrow> ustring \<Rightarrow> json list \<Rightarrow> loop_result" where
  "bump_loop name new_version [] = Absent"
| "bump_loop name new_version (JObj kvs # ps) =
     (if obj_get kvs (ustr ''name'') JNull = JStr name
      then Found (JObj (obj_set kvs (ustr ''version'') (JStr new_version)) # ps)
             (obj_get kvs (ustr ''version'') (JStr []))
      else (case bump_loop name new_version ps of
              Found ps' old \<Rightarrow> Found (JObj kvs # ps') old
            | Absent \<Rightarrow> Absent
            | Loop_raised \<Rightarrow> Loop_raised))"
| "bump_loop name new_version (p # ps) = Loop_raised"

text \<open>
  \<open>for p in data.get("plugins", [])\<close> on whatever the member holds: a list is walked; an
  object or a string is walked by its keys or characters, which are strings without
  \<open>get\<close>, so the first one raises; the other values are not iterable.
\<close>

fun bump_entries :: "ustring \<Rightarrow> ustring \<Rightarrow> json \<Rightarrow> loop_result" where
  "bump_entries name new_version (JArr ps) = bump_loop name new_version ps"
| "bump_entries name new_version (JObj kvs) = (if kvs = [] then Absent else Loop_raised)"
| "bump_entries name new_version (JStr s) = (if s = [] then Absent else Loop_raised)"
| "bump_entries name new_version v = Loop_raised"

text \<open>
  Lines 22-24 for the repository root \<open>root\<close>, which is
  \<open>Path(__file__).resolve().parent.parent\<close>, an absolute path. A name that starts with a
  slash makes \<open>root / "plugins" / name\<close> drop the root.
\<close>

definition plugin_json_path :: "path \<Rightarrow> ustring \<Rightarrow> path" where
  "plugin_json_path root name =
     pjoin (pjoin (pjoin (pjoin root (ustr ''plugins'')) name) (ustr ''.claude-plugin''))
       (ustr ''plugin.json'')"

definition marketplace_json_path :: "path \<Rightarrow> path" where
  "marketplace_json_path root =
     pjoin (pjoin root (ustr ''.claude-plugin'')) (ustr ''marketplace.json'')"

text \<open>
  The second half of \<open>main\<close> (lines 40-52), on the files as the first half left them and
  with what was printed so far.
\<close>

definition update_marketplace ::
  "path \<Rightarrow> ustring \<Rightarrow> ustring \<Rightarrow> message list \<Rightarrow> files \<Rightarrow> run" where
  "update_marketplace root name new_version out fs =
     (case fs (marketplace_json_path root) of
        Some (Some (JObj kvs)) \<Rightarrow>
          (case bump_entries name new_version (obj_get kvs (ustr ''plugins'') (JArr [])) of
             Found ps' old \<Rightarrow>
               \<lparr> result = Returned 0, stderr = [],
                 stdout = out @ [Updated_marketplace name old new_version],
                 files_after = fs(marketplace_json_path root \<mapsto>
                   Some (JObj (obj_set kvs (ustr ''plugins'') (JArr ps')))) \<rparr>
           | Absent \<Rightarrow>
               \<lparr> result = Returned 0, stderr = [Warning_no_plugin name], stdout = out,
                 files_after = fs(marketplace_json_path root \<mapsto> Some (JObj kvs)) \<rparr>
           | Loop_raised \<Rightarrow>
               \<lparr> result = Raised, stderr = [], stdout = out, files_after = fs \<rparr>)
      | _ \<Rightarrow> \<lparr> result = Raised, stderr = [], stdout = out, files_after = fs \<rparr>)"

text \<open>
  \<open>main\<close> (lines 12-52) for the root, the arguments \<open>sys.argv\<close> and the files present. A
  manifest that does not parse, or whose top level is no object, raises at \<open>json.loads\<close>
  or at \<open>data.get\<close>. At line 38 \<open>plugin_json.relative_to(root)\<close> raises when the path
  of \<open>plugin.json\<close> does not lie under the root; \<open>plugin.json\<close> is written by then.
\<close>

definition bump_main :: "path \<Rightarrow> ustring list \<Rightarrow> files \<Rightarrow> run" where
  "bump_main root argv fs =
     (if length argv \<noteq> 3
      then \<lparr> result = Returned 1, stderr = [Usage, Example], stdout = [], files_after = fs \<rparr>
      else
        let name = argv ! 1;
            new_version = py_strip (argv ! 2);
            plugin_json = plugin_json_path root name
        in if fs plugin_json = None
           then \<lparr> result = Returned 1, stderr = [Not_found plugin_json],
                  stdout = [], files_after = fs \<rparr>
           else if fs (marketplace_json_path root) = None
           then \<lparr> result = Returned 1, stderr = [Not_found (marketplace_json_path root)],
                  stdout = [], files_after = fs \<rparr>
           else
             (case fs plugin_json of
                Some (Some (JObj kvs)) \<Rightarrow>
                  (case relative_to plugin_json root of
                     None \<Rightarrow>
                       \<lparr> result = Raised, stderr = [], stdout = [],
                         files_after = fs(plugin_json \<mapsto>
                           Some (JObj (obj_set kvs (ustr ''version'') (JStr new_version)))) \<rparr>
                   | Some rel \<Rightarrow>
                       update_marketplace root name new_version
                         [Updated_plugin rel (obj_get kvs (ustr ''version'') (JStr [])) new_version]
                         (fs(plugin_json \<mapsto>
                             Some (JObj (obj_set kvs (ustr ''version'') (JStr new_version))))))
              | _ \<Rightarrow> \<lparr> result = Raised, stderr = [], stdout = [], files_after = fs \<rparr>))"

lemma pjoin_simple:
  "snd (pjoin p (ustr ''plugin.json'')) = snd p @ [ustr ''plugin.json'']"
  "snd (pjoin p (ustr ''marketplace.json'')) = snd p @ [ustr ''marketplace.json'']"
  "snd (pjoin p (ustr ''.claude-plugin'')) = snd p @ [ustr ''.claude-plugin'']"
  "snd (pjoin p (ustr ''plugins'')) = snd p @ [ustr ''plugins'']"
  "fst (pjoin p (ustr ''plugin.json'')) = fst p"
  "fst (pjoin p (ustr ''.claude-plugin'')) = fst p"
  "fst (pjoin p (ustr ''plugins'')) = fst p"
  by (simp_all add: pjoin_def path_of_def ustr_def)

lemma paths_differ: "marketplace_json_path root \<noteq> plugin_json_path root name"
proof
  assume "marketplace_json_path root = plugin_json_path root name"
  then have "last (snd (marketplace_json_path root)) = last (snd (plugin_json_path root name))"
    by simp
  then show False
    by (simp add: marketplace_json_path_def plugin_json_path_def pjoin_simple) (simp add: ustr_def)
qed

lemma relative_name_under_root:
  assumes "take 1 name \<noteq> ustr ''/''"
  shows "relative_to (plugin_json_path root name) root
         = Some ([ustr ''plugins''] @ snd (path_of name) @ [ustr ''.claude-plugin'', ustr ''plugin.json''])"
proof -
  have j: "pjoin p name = (fst p, snd p @ snd (path_of name))" for p
    using assms by (simp add: pjoin_def)
  show ?thesis
    unfolding relative_to_def plugin_json_path_def
    by (simp add: pjoin_simple j)
qed

lemma bump_loop_absent:
  "\<forall>p \<in> set ps. \<exists>kvs. p = JObj kvs \<and> obj_get kvs (ustr ''name'') JNull \<noteq> JStr name \<Longrightarrow>
   bump_loop name new_version ps = Absent"
proof (induction ps)
  case Nil
  then show ?case by simp
next
  case (Cons p ps)
  from Cons.prems obtain kvs where p: "p = JObj kvs"
    and n: "obj_get kvs (ustr ''name'') JNull \<noteq> JStr name"
    by auto
  from Cons.prems have "\<forall>p \<in> set ps. \<exists>kvs. p = JObj kvs \<and> obj_get kvs (ustr ''name'') JNull \<noteq> JStr name"
    by simp
  from Cons.IH [OF this] p n show ?case by simp
qed

text \<open>
  C9, as the code has it. Called with two arguments, the utility returns 1 with a message
  on the diagnostic output, and writes nothing, when either manifest is missing. When both
  manifests are objects, the path of \<open>plugin.json\<close> lies under the root (as it does for
  every name that does not start with a slash) and no entry of the registry's \<open>plugins\<close>
  array carries the given name, it prints a warning and returns 0. When \<open>plugin.json\<close>
  is an object outside the root, the run ends in an exception after \<open>plugin.json\<close> was
  rewritten.
\<close>

theorem bump_main_failure_behaviour:
  assumes "length argv = 3"
  shows "(fs (plugin_json_path root (argv ! 1)) = None \<or> fs (marketplace_json_path root) = None \<longrightarrow>
            exit_status (result (bump_main root argv fs)) \<noteq> 0 \<and>
            stderr (bump_main root argv fs) \<noteq> [] \<and>
            files_after (bump_main root argv fs) = fs) \<and>
         (take 1 (argv ! 1) \<noteq> ustr ''/'' \<longrightarrow>
            relative_to (plugin_json_path root (argv ! 1)) root \<noteq> None) \<and>
         (\<forall>pk mk ps.
            relative_to (plugin_json_path root (argv ! 1)) root \<noteq> None \<and>
            fs (plugin_json_path root (argv ! 1)) = Some (Some (JObj pk)) \<and>
            fs (marketplace_json_path root) = Some (Some (JObj mk)) \<and>
            map_of mk (ustr ''plugins'') = Some (JArr ps) \<and>
            (\<forall>p \<in> set ps. \<exists>kvs. p = JObj kvs \<and>
                obj_get kvs (ustr ''name'') JNull \<noteq> JStr (argv ! 1)) \<longrightarrow>
            exit_status (result (bump_main root argv fs)) = 0 \<and>
            stderr (bump_main root argv fs) = [Warning_no_plugin (argv ! 1)]) \<and>
         (\<forall>pk.
            relative_to (plugin_json_path root (argv ! 1)) root = None \<and>
            fs (plugin_json_path root (argv ! 1)) = Some (Some (JObj pk)) \<and>
            fs (marketplace_json_path root) \<noteq> None \<longrightarrow>
            result (bump_main root argv fs) = Raised \<and>
            exit_status (result (bump_main root argv fs)) = 1 \<and>
            files_after (bump_main root argv fs)
              = fs(plugin_json_path root (argv ! 1) \<mapsto>
                  Some (JObj (obj_set pk (ustr ''version'') (JStr (py_strip (argv ! 2)))))))"
proof (intro conjI allI impI)
  assume "fs (plugin_json_path root (argv ! 1)) = None \<or> fs (marketplace_json_path root) = None"
  then show "exit_status (result (bump_main root argv fs)) \<noteq> 0"
    and "stderr (bump_main root argv fs) \<noteq> []"
    and "files_after (bump_main root argv fs) = fs"
    using assms by (auto simp: bump_main_def Let_def)
next
  assume "take 1 (argv ! 1) \<noteq> ustr ''/''"
  from relative_name_under_root [OF this, of root]
  show "relative_to (plugin_json_path root (argv ! 1)) root \<noteq> None" by simp
next
  fix pk mk ps
  assume h: "relative_to (plugin_json_path root (argv ! 1)) root \<noteq> None \<and>
            fs (plugin_json_path root (argv ! 1)) = Some (Some (JObj pk)) \<and>
            fs (marketplace_json_path root) = Some (Some (JObj mk)) \<and>
            map_of mk (ustr ''plugins'') = Some (JArr ps) \<and>
            (\<forall>p \<in> set ps. \<exists>kvs. p = JObj kvs \<and>
                obj_get kvs (ustr ''name'') JNull \<noteq> JStr (argv ! 1))"
  then obtain rel where rel: "relative_to (plugin_json_path root (argv ! 1)) root = Some rel"
    by auto
  from h have ab: "bump_loop (argv ! 1) (py_strip (argv ! 2)) ps = Absent"
    using bump_loop_absent by blast
  from h have e: "bump_entries (argv ! 1) (py_strip (argv ! 2))
      (obj_get mk (ustr ''plugins'') (JArr [])) = Absent"
    using ab by (simp add: obj_get_def)
  have r: "bump_main root argv fs =
      \<lparr> result = Returned 0, stderr = [Warning_no_plugin (argv ! 1)],
        stdout = [Updated_plugin rel
                   (obj_get pk (ustr ''version'') (JStr [])) (py_strip (argv ! 2))],
        files_after = (fs(plugin_json_path root (argv ! 1) \<mapsto>
            Some (JObj (obj_set pk (ustr ''version'') (JStr (py_strip (argv ! 2)))))))
          (marketplace_json_path root \<mapsto> Some (JObj mk)) \<rparr>"
    using assms h e rel paths_differ [of root "argv ! 1"]
    by (simp add: bump_main_def update_marketplace_def Let_def)
  show "exit_status (result (bump_main root argv fs)) = 0" unfolding r by simp
  show "stderr (bump_main root argv fs) = [Warning_no_plugin (argv ! 1)]" unfolding r by simp
next
  fix pk
  assume h: "relative_to (plugin_json_path root (argv ! 1)) root = None \<and>
            fs (plugin_json_path root (argv ! 1)) = Some (Some (JObj pk)) \<and>
            fs (marketplace_json_path root) \<noteq> None"
  have r: "bump_main root argv fs =
      \<lparr> result = Raised, stderr = [], stdout = [],
        files_after = fs(plugin_json_path root (argv ! 1) \<mapsto>
            Some (JObj (obj_set pk (ustr ''version'') (JStr (py_strip (argv ! 2)))))) \<rparr>"
    using assms h by (auto simp add: bump_main_def Let_def)
  show "result (bump_main root argv fs) = Raised" unfolding r by simp
  show "exit_status (result (bump_main root argv fs)) = 1" unfolding r by simp
  show "files_after (bump_main root argv fs)
      = fs(plugin_json_path root (argv ! 1) \<mapsto>
          Some (JObj (obj_set pk (ustr ''version'') (JStr (py_strip (argv ! 2))))))"
    unfolding r by simp
qed

text \<open>
  The claim as the spec states it fails on the code: with both manifests present and no
  entry named \<open>frontend-general\<close> in the registry, the utility warns and returns 0.
\<close>

definition example_root :: path where
  "example_root = (ustr ''/'', [ustr ''repo''])"

definition example_files :: files where
  "example_files =
     [plugin_json_path example_root (ustr ''frontend-general'') \<mapsto>
        Some (JObj [(ustr ''name'', JStr (ustr ''frontend-general'')),
                    (ustr ''version'', JStr (ustr ''1.0.0''))]),
      marketplace_json_path example_root \<mapsto>
        Some (JObj [(ustr ''plugins'',
                     JArr [JObj [(ustr ''name'', JStr (ustr ''frontend-react'')),
                                 (ustr ''version'', JStr (ustr ''1.0.0''))]])])]"

definition example_argv :: "ustring list" where
  "example_argv = [ustr ''bump_plugin_version.py'', ustr ''frontend-general'', ustr ''1.1.0'']"

text \<open>The same call for a plugin directory given as an absolute path outside the root.\<close>

definition outside_argv :: "ustring list" where
  "outside_argv = [ustr ''bump_plugin_version.py'', ustr ''/tmp/x'', ustr ''1.1.0'']"

definition outside_files :: files where
  "outside_files =
     example_files(plugin_json_path example_root (ustr ''/tmp/x'') \<mapsto> Some (JObj []))"

lemma example_files_plugin:
  "example_files (plugin_json_path example_root (example_argv ! 1))
     = Some (Some (JObj [(ustr ''name'', JStr (ustr ''frontend-general'')),
                         (ustr ''version'', JStr (ustr ''1.0.0''))]))"
  using paths_differ [of example_root "ustr ''frontend-general''"]
  by (simp add: example_files_def example_argv_def)

lemma example_files_marketplace:
  "example_files (marketplace_json_path example_root)
     = Some (Some (JObj [(ustr ''plugins'',
                     JArr [JObj [(ustr ''name'', JStr (ustr ''frontend-react'')),
                                 (ustr ''version'', JStr (ustr ''1.0.0''))]])]))"
  by (simp add: example_files_def)

lemma outside_files_plugin:
  "outside_files (plugin_json_path example_root (outside_argv ! 1)) = Some (Some (JObj []))"
  by (simp add: outside_files_def outside_argv_def)

lemma outside_files_marketplace:
  "outside_files (marketplace_json_path example_root) \<noteq> None"
  using paths_differ [of example_root "ustr ''/tmp/x''"]
  by (simp add: outside_files_def example_files_def)

lemma outside_not_relative:
  "relative_to (plugin_json_path example_root (outside_argv ! 1)) example_root = None"
  by (simp add: outside_argv_def relative_to_def plugin_json_path_def pjoin_def path_of_def
      path_anchor_def example_root_def ustr_def)

lemmas bump_eval =
  bump_main_def update_marketplace_def example_files_def example_argv_def example_root_def
  plugin_json_path_def marketplace_json_path_def pjoin_def path_of_def path_anchor_def
  relative_to_def obj_get_def Let_def ustr_def py_strip_def is_space_def

theorem absent_plugin_exits_zero_counterexample:
  "exit_status (result (bump_main example_root example_argv example_files)) = 0 \<and>
   stderr (bump_main example_root example_argv example_files)
     = [Warning_no_plugin (ustr ''frontend-general'')]"
  by (simp add: bump_eval)

theorem bump_main_failure_behaviour_witness:
  "length example_argv = 3 \<and>
   (example_files(marketplace_json_path example_root := None)) (marketplace_json_path example_root) = None \<and>
   exit_status (result (bump_main example_root example_argv
       (example_files(marketplace_json_path example_root := None)))) \<noteq> 0 \<and>
   stderr (bump_main example_root example_argv
       (example_files(marketplace_json_path example_root := None))) \<noteq> [] \<and>
   take 1 (example_argv ! 1) \<noteq> ustr ''/'' \<and>
   relative_to (plugin_json_path example_root (example_argv ! 1)) example_root \<noteq> None \<and>
   exit_status (result (bump_main example_root example_argv example_files)) = 0 \<and>
   relative_to (plugin_json_path example_root (outside_argv ! 1)) example_root = None \<and>
   result (bump_main example_root outside_argv outside_files) = Raised \<and>
   exit_status (result (bump_main example_root outside_argv outside_files)) = 1"
proof -
  have l: "length example_argv = 3" by (simp add: example_argv_def)
  have lo: "length outside_argv = 3" by (simp add: outside_argv_def)
  note t1 = bump_main_failure_behaviour
    [OF l, of "example_files(marketplace_json_path example_root := None)" example_root]
  note t2 = bump_main_failure_behaviour [OF l, of example_files example_root]
  note t3 = bump_main_failure_behaviour [OF lo, of outside_files example_root]
  have a: "exit_status (result (bump_main example_root example_argv
               (example_files(marketplace_json_path example_root := None)))) \<noteq> 0
      \<and> stderr (bump_main example_root example_argv
               (example_files(marketplace_json_path example_root := None))) \<noteq> []"
    using t1 [THEN conjunct1] by simp
  have n: "take 1 (example_argv ! 1) \<noteq> ustr ''/''" by (simp add: example_argv_def ustr_def)
  have rel: "relative_to (plugin_json_path example_root (example_argv ! 1)) example_root \<noteq> None"
    using t2 [THEN conjunct2, THEN conjunct1] n by blast
  have ps: "\<forall>p \<in> set [JObj [(ustr ''name'', JStr (ustr ''frontend-react'')),
                        (ustr ''version'', JStr (ustr ''1.0.0''))]].
          \<exists>kvs. p = JObj kvs \<and> obj_get kvs (ustr ''name'') JNull \<noteq> JStr (example_argv ! 1)"
    by (simp add: obj_get_def ustr_def example_argv_def)
  have b: "exit_status (result (bump_main example_root example_argv example_files)) = 0"
    using t2 [THEN conjunct2, THEN conjunct2, THEN conjunct1, rule_format,
        of "[(ustr ''name'', JStr (ustr ''frontend-general'')), (ustr ''version'', JStr (ustr ''1.0.0''))]"
           "[(ustr ''plugins'', JArr [JObj [(ustr ''name'', JStr (ustr ''frontend-react'')),
                                 (ustr ''version'', JStr (ustr ''1.0.0''))]])]"
           "[JObj [(ustr ''name'', JStr (ustr ''frontend-react'')),
                                 (ustr ''version'', JStr (ustr ''1.0.0''))]]"]
      rel ps example_files_plugin example_files_marketplace
    by simp
  have c: "result (bump_main example_root outside_argv outside_files) = Raised
      \<and> exit_status (result (bump_main example_root outside_argv outside_files)) = 1"
    using t3 [THEN conjunct2, THEN conjunct2, THEN conjunct2, rule_format, of "[]"]
      outside_not_relative outside_files_plugin outside_files_marketplace
    by simp
  from l a n rel b c outside_not_relative show ?thesis by simp
qed

section \<open>The document assembler\<close>











































end
